theory Spec2Isabelle
  imports Complex_Main "HOL-Library.AList"
begin

section \<open>Data model\<close>

text \<open>
  The dataclasses of \<^verbatim>\<open>th2_Marek_Sipek.py\<close>. Both have a field \<open>name\<close>, and the
  dictionaries the matching works on reuse the keys \<open>score\<close>, \<open>capacity\<close> and
  \<open>accepted\<close>; the dataclass fields are therefore always written qualified
  (\<open>Student.score\<close>, \<open>School.capacity\<close>), the unqualified names belong to the
  dictionaries below.
\<close>

record Student =
  name :: string
  preferences :: "string list"
  score :: int

record School =
  name :: string
  capacity :: int
  accepted :: "(string \<times> int) list"

definition is_full :: "School \<Rightarrow> bool" where
  "is_full s \<longleftrightarrow> int (length (School.accepted s)) \<ge> School.capacity s"

text \<open>
  The two attributes of the application object that the matching reads:
  \<^verbatim>\<open>self.students\<close> (a list) and \<^verbatim>\<open>self.schools\<close> (a dict from the school's name to
  the school, here the list of its items in insertion order).
\<close>

record CollegeAdmissionsApp =
  students :: "Student list"
  schools :: "(string \<times> School) list"

text \<open>The exceptions that the modelled statements can raise.\<close>

datatype error = KeyError | IndexError | OverflowError

subsection \<open>Python dictionaries\<close>

text \<open>
  A dict is the list of its items in insertion order. \<^verbatim>\<open>d[k] = v\<close> is
  \<^const>\<open>AList.update\<close>: an existing key keeps its place, a new key goes to the end.
  \<^verbatim>\<open>d[k]\<close> raises KeyError on a missing key, and a dict comprehension stores its
  items one after the other.
\<close>

definition dict_get :: "('k \<times> 'v) list \<Rightarrow> 'k \<Rightarrow> error + 'v" where
  "dict_get d k = (case map_of d k of None \<Rightarrow> Inl KeyError | Some v \<Rightarrow> Inr v)"

definition dict_of :: "('k \<times> 'v) list \<Rightarrow> ('k \<times> 'v) list" where
  "dict_of kvs = foldl (\<lambda>d kv. AList.update (fst kv) (snd kv) d) [] kvs"

section \<open>The matching engine: \<^verbatim>\<open>gale_shapley_matching\<close>\<close>

text \<open>
  The inner dictionaries \<^verbatim>\<open>{"prefs": ..., "score": ...}\<close> and
  \<^verbatim>\<open>{"capacity": ..., "accepted": [...]}\<close>, and the local variables of the function.
\<close>

record student_data =
  prefs :: "string list"
  score :: int

record school_data =
  capacity :: int
  accepted :: "(string \<times> int) list"

record gs_state =
  student_dict :: "(string \<times> student_data) list"
  schools_dict :: "(string \<times> school_data) list"
  unmatched :: "string list"
  pref_index :: "(string \<times> nat) list"

definition gs_init :: "CollegeAdmissionsApp \<Rightarrow> gs_state" where
  "gs_init app =
     \<lparr>student_dict = dict_of (map (\<lambda>s. (Student.name s,
          \<lparr>prefs = preferences s, score = Student.score s\<rparr>)) (students app)),
      schools_dict = dict_of (map (\<lambda>(n, school). (n,
          \<lparr>capacity = School.capacity school, accepted = []\<rparr>)) (schools app)),
      unmatched = map Student.name (students app),
      pref_index = dict_of (map (\<lambda>s. (Student.name s, 0)) (students app))\<rparr>"

text \<open>
  \<^verbatim>\<open>sorted(xs, key=lambda x: x[1])\<close> is a stable sort by the score, and so is
  \<^const>\<open>sort_key\<close>. With \<^verbatim>\<open>reverse=True\<close> Python sorts descending and still keeps
  equal keys in their original order: it reverses, sorts and reverses again.
\<close>

definition sorted_by_score :: "(string \<times> int) list \<Rightarrow> (string \<times> int) list" where
  "sorted_by_score xs = sort_key snd xs"

definition sorted_by_score_reverse :: "(string \<times> int) list \<Rightarrow> (string \<times> int) list" where
  "sorted_by_score_reverse xs = rev (sort_key snd (rev xs))"

text \<open>
  One iteration of the loop \<^verbatim>\<open>while unmatched:\<close> (lines 397 to 430).
  \<^verbatim>\<open>student_dict[student]\<close> is read twice in the source, with nothing written to
  it in between; \<^verbatim>\<open>school_data\<close> is a reference into \<^verbatim>\<open>schools_dict\<close>, so an append
  to its list is an update of the dictionary. \<^verbatim>\<open>list.remove\<close> takes out the first
  equal element, which exists because \<^verbatim>\<open>current[0]\<close> comes from the same list.
\<close>

definition gs_iter :: "gs_state \<Rightarrow> error + gs_state" where
  "gs_iter st =
    (case unmatched st of
      [] \<Rightarrow> Inl IndexError
    | student # rest \<Rightarrow>
      (case dict_get (student_dict st) student of
        Inl e \<Rightarrow> Inl e
      | Inr sd \<Rightarrow>
        (case dict_get (pref_index st) student of
          Inl e \<Rightarrow> Inl e
        | Inr i \<Rightarrow>
          if i \<ge> length (prefs sd) then Inr (st\<lparr>unmatched := rest\<rparr>)
          else
            let school = prefs sd ! i;
                pref_index' = AList.update student (i + 1) (pref_index st)
            in
            (case map_of (schools_dict st) school of
              None \<Rightarrow> Inr (st\<lparr>unmatched := rest @ [student], pref_index := pref_index'\<rparr>)
            | Some school_data \<Rightarrow>
                let student_score = score sd in
                if int (length (accepted school_data)) < capacity school_data then
                  Inr (st\<lparr>schools_dict := AList.update school
                            (school_data\<lparr>accepted := accepted school_data @ [(student, student_score)]\<rparr>)
                            (schools_dict st),
                          unmatched := rest,
                          pref_index := pref_index'\<rparr>)
                else
                  (case sorted_by_score (accepted school_data) of
                    [] \<Rightarrow> Inl IndexError
                  | lowest # _ \<Rightarrow>
                      if student_score > snd lowest then
                        Inr (st\<lparr>schools_dict := AList.update school
                                  (school_data\<lparr>accepted :=
                                     remove1 lowest (accepted school_data) @ [(student, student_score)]\<rparr>)
                                  (schools_dict st),
                                unmatched := rest @ [fst lowest],
                                pref_index := pref_index'\<rparr>)
                      else
                        Inr (st\<lparr>unmatched := rest @ [student], pref_index := pref_index'\<rparr>))))))"

text \<open>
  What is left to do in a state: the preferences not yet tried, over all students of
  the dictionary, plus the length of the queue. Every iteration lowers it.
\<close>

definition remaining :: "'a gs_state_scheme \<Rightarrow> string \<Rightarrow> nat" where
  "remaining st k =
     (case map_of (student_dict st) k of
        None \<Rightarrow> 0
      | Some sd \<Rightarrow> (case map_of (pref_index st) k of None \<Rightarrow> 0 | Some i \<Rightarrow> length (prefs sd) - i))"

definition gs_measure :: "'a gs_state_scheme \<Rightarrow> nat" where
  "gs_measure st = (\<Sum>k \<in> fst ` set (student_dict st). remaining st k) + length (unmatched st)"

text \<open>The five ways an iteration can end without an exception.\<close>

lemma gs_iter_cases [consumes 1, case_names Discard Unknown Accept Replace Reject]:
  assumes "gs_iter st = Inr st'"
  obtains
    (Discard) a rest sd i where
      "unmatched st = a # rest" "map_of (student_dict st) a = Some sd"
      "map_of (pref_index st) a = Some i" "length (prefs sd) \<le> i"
      "st' = st\<lparr>unmatched := rest\<rparr>"
  | (Unknown) a rest sd i where
      "unmatched st = a # rest" "map_of (student_dict st) a = Some sd"
      "map_of (pref_index st) a = Some i" "i < length (prefs sd)"
      "map_of (schools_dict st) (prefs sd ! i) = None"
      "st' = st\<lparr>unmatched := rest @ [a],
                 pref_index := AList.update a (i + 1) (pref_index st)\<rparr>"
  | (Accept) a rest sd i d where
      "unmatched st = a # rest" "map_of (student_dict st) a = Some sd"
      "map_of (pref_index st) a = Some i" "i < length (prefs sd)"
      "map_of (schools_dict st) (prefs sd ! i) = Some d"
      "int (length (accepted d)) < capacity d"
      "st' = st\<lparr>schools_dict := AList.update (prefs sd ! i)
                    (d\<lparr>accepted := accepted d @ [(a, score sd)]\<rparr>) (schools_dict st),
                 unmatched := rest,
                 pref_index := AList.update a (i + 1) (pref_index st)\<rparr>"
  | (Replace) a rest sd i d lowest others where
      "unmatched st = a # rest" "map_of (student_dict st) a = Some sd"
      "map_of (pref_index st) a = Some i" "i < length (prefs sd)"
      "map_of (schools_dict st) (prefs sd ! i) = Some d"
      "\<not> int (length (accepted d)) < capacity d"
      "sorted_by_score (accepted d) = lowest # others" "snd lowest < score sd"
      "st' = st\<lparr>schools_dict := AList.update (prefs sd ! i)
                    (d\<lparr>accepted := remove1 lowest (accepted d) @ [(a, score sd)]\<rparr>)
                    (schools_dict st),
                 unmatched := rest @ [fst lowest],
                 pref_index := AList.update a (i + 1) (pref_index st)\<rparr>"
  | (Reject) a rest sd i d lowest others where
      "unmatched st = a # rest" "map_of (student_dict st) a = Some sd"
      "map_of (pref_index st) a = Some i" "i < length (prefs sd)"
      "map_of (schools_dict st) (prefs sd ! i) = Some d"
      "\<not> int (length (accepted d)) < capacity d"
      "sorted_by_score (accepted d) = lowest # others" "\<not> snd lowest < score sd"
      "st' = st\<lparr>unmatched := rest @ [a],
                 pref_index := AList.update a (i + 1) (pref_index st)\<rparr>"
  using assms
  unfolding gs_iter_def dict_get_def Let_def
  by (auto split: list.splits option.splits if_splits)

lemma remaining_cong:
  "student_dict st' = student_dict st \<Longrightarrow> pref_index st' = pref_index st
   \<Longrightarrow> remaining st' = remaining st"
  by (auto simp: remaining_def fun_eq_iff split: option.splits)

lemma remaining_sum_advance:
  assumes sd: "map_of (student_dict st) a = Some sd"
    and pi: "map_of (pref_index st) a = Some i"
    and lt: "i < length (prefs sd)"
    and sd': "student_dict st' = student_dict st"
    and pi': "map_of (pref_index st') = (map_of (pref_index st))(a \<mapsto> i + 1)"
  shows "(\<Sum>k \<in> fst ` set (student_dict st'). remaining st' k)
         < (\<Sum>k \<in> fst ` set (student_dict st). remaining st k)"
proof -
  let ?K = "fst ` set (student_dict st)"
  have mem: "a \<in> ?K"
    using sd by (metis map_of_eq_None_iff option.distinct(1))
  have le: "\<forall>k \<in> ?K. remaining st' k \<le> remaining st k"
    using sd pi by (auto simp: remaining_def sd' pi' split: option.splits)
  have "remaining st' a < remaining st a"
    using sd pi lt by (simp add: remaining_def sd' pi')
  with mem have ex: "\<exists>k \<in> ?K. remaining st' k < remaining st k"
    by blast
  have "(\<Sum>k \<in> ?K. remaining st' k) < (\<Sum>k \<in> ?K. remaining st k)"
    by (rule sum_strict_mono_ex1) (use le ex in auto)
  then show ?thesis
    by (simp add: sd')
qed

lemma gs_iter_measure:
  assumes "gs_iter st = Inr st'"
  shows "gs_measure st' < gs_measure st"
  using assms
proof (cases rule: gs_iter_cases)
  case (Discard a rest sd i)
  have "remaining st' = remaining st"
    by (rule remaining_cong) (simp_all add: Discard)
  then show ?thesis
    by (simp add: gs_measure_def Discard)
next
  case (Unknown a rest sd i)
  then show ?thesis
    using remaining_sum_advance [of st a sd i st']
    by (simp add: gs_measure_def update_conv')
next
  case (Accept a rest sd i d)
  then show ?thesis
    using remaining_sum_advance [of st a sd i st']
    by (simp add: gs_measure_def update_conv')
next
  case (Replace a rest sd i d lowest others)
  then show ?thesis
    using remaining_sum_advance [of st a sd i st']
    by (simp add: gs_measure_def update_conv')
next
  case (Reject a rest sd i d lowest others)
  then show ?thesis
    using remaining_sum_advance [of st a sd i st']
    by (simp add: gs_measure_def update_conv')
qed

text \<open>
  The loop \<^verbatim>\<open>while unmatched:\<close>; an exception in an iteration ends it. The second
  function counts the pops of the same loop.
\<close>

function gs_loop :: "gs_state \<Rightarrow> error + gs_state" where
  "gs_loop st =
     (if unmatched st = [] then Inr st
      else (case gs_iter st of Inl e \<Rightarrow> Inl e | Inr st' \<Rightarrow> gs_loop st'))"
  by pat_completeness auto
termination
  by (relation "measure gs_measure") (auto simp: gs_iter_measure)

function gs_pops :: "gs_state \<Rightarrow> nat" where
  "gs_pops st =
     (if unmatched st = [] then 0
      else (case gs_iter st of Inl e \<Rightarrow> 1 | Inr st' \<Rightarrow> Suc (gs_pops st')))"
  by pat_completeness auto
termination
  by (relation "measure gs_measure") (auto simp: gs_iter_measure)

declare gs_loop.simps [simp del] gs_pops.simps [simp del]

text \<open>The dictionary that the function returns (lines 433 to 436).\<close>

definition format_results :: "(string \<times> school_data) list \<Rightarrow> (string \<times> string list) list" where
  "format_results sdict =
     dict_of (map (\<lambda>(school, data). (school, map fst (sorted_by_score_reverse (accepted data)))) sdict)"

definition gale_shapley_matching :: "CollegeAdmissionsApp \<Rightarrow> error + (string \<times> string list) list" where
  "gale_shapley_matching app =
     (case gs_loop (gs_init app) of
        Inl e \<Rightarrow> Inl e
      | Inr st \<Rightarrow> Inr (format_results (schools_dict st)))"

section \<open>The animation: \<^verbatim>\<open>_animation_reset\<close>, \<^verbatim>\<open>_animation_step\<close>, \<^verbatim>\<open>_animation_run_step\<close>\<close>

text \<open>\<^verbatim>\<open>str\<close> of an integer, as the f-strings of the status lines format it.\<close>

fun str_nat :: "nat \<Rightarrow> string" where
  "str_nat n =
     (if n < 10 then [char_of (48 + n)]
      else str_nat (n div 10) @ [char_of (48 + n mod 10)])"

definition str_int :: "int \<Rightarrow> string" where
  "str_int i = (if i < 0 then CHR ''-'' # str_nat (nat (- i)) else str_nat (nat i))"

text \<open>
  An entry of \<^verbatim>\<open>state["history"]\<close>: the dictionary with the keys \<^verbatim>\<open>student\<close>,
  \<^verbatim>\<open>school\<close>, \<^verbatim>\<open>action\<close> and \<^verbatim>\<open>rejected\<close>, the last two \<^verbatim>\<open>None\<close> or a string.
\<close>

record history_entry =
  student :: string
  school :: string
  action :: "string option"
  rejected :: "string option"

text \<open>
  The dictionary \<^verbatim>\<open>animation_state\<close>: the four variables of the matching under the same
  names, and the keys of the animation. The last field is not a key of the
  dictionary: it is the content of the text widget \<^verbatim>\<open>status_text\<close> that every step
  receives with the state, as the list of the strings inserted at its end. The canvas
  is only drawn on (\<^verbatim>\<open>_draw_animation_state\<close> reads the state and changes nothing in
  it) and is left out.
\<close>

record animation_state = gs_state +
  running :: bool
  step :: int
  speed :: real
  history :: "history_entry list"
  current_student :: "string option"
  current_school :: "string option"
  status_text :: "string list"

text \<open>
  \<^verbatim>\<open>_animation_reset\<close> (lines 1043 to 1072): every key but \<^verbatim>\<open>speed\<close> is set anew, the
  variables of the matching as \<^verbatim>\<open>gale_shapley_matching\<close> initialises them; the status
  text is cleared and receives four lines.
\<close>

definition animation_reset :: "CollegeAdmissionsApp \<Rightarrow> animation_state \<Rightarrow> animation_state" where
  "animation_reset app state =
     state\<lparr>running := False,
           step := 0,
           student_dict := dict_of (map (\<lambda>s. (Student.name s,
               \<lparr>prefs = preferences s, score = Student.score s\<rparr>)) (students app)),
           schools_dict := dict_of (map (\<lambda>(n, sch). (n,
               \<lparr>capacity = School.capacity sch, accepted = []\<rparr>)) (schools app)),
           unmatched := map Student.name (students app),
           pref_index := dict_of (map (\<lambda>s. (Student.name s, 0)) (students app)),
           history := [],
           current_student := None,
           current_school := None,
           status_text :=
             [''Algorithm initialized. Ready to start.'' @ [CHR 0x0A],
              ''Total students: '' @ str_int (int (length (students app))) @ [CHR 0x0A],
              ''Total schools: '' @ str_int (int (length (schools app))) @ [CHR 0x0A],
              ''Press 'Start' to run animation or 'Step' for step-by-step.'' @ [CHR 0x0A]]\<rparr>"

text \<open>
  One step (lines 1086 to 1177). The local variables \<^verbatim>\<open>student\<close> and \<^verbatim>\<open>school\<close> are
  \<open>a\<close> and \<open>s\<close> here, since the keys of the history entry have these names. When
  \<^verbatim>\<open>running\<close> is set, the source also asks the canvas to call the step again after
  \<^verbatim>\<open>speed * 1000\<close> milliseconds; that request changes nothing in the state.
\<close>

definition animation_run_step :: "animation_state \<Rightarrow> error + animation_state" where
  "animation_run_step state =
    (case unmatched state of
      [] \<Rightarrow>
        Inr (state\<lparr>running := False,
                   status_text := status_text state @
                     [[CHR 0x0A] @ ''Algorithm complete! All students processed.'' @ [CHR 0x0A]]\<rparr>)
    | a # rest \<Rightarrow>
      (case dict_get (student_dict state) a of
        Inl e \<Rightarrow> Inl e
      | Inr sd \<Rightarrow>
        (case dict_get (pref_index state) a of
          Inl e \<Rightarrow> Inl e
        | Inr i \<Rightarrow>
          if i \<ge> length (prefs sd) then
            Inr (state\<lparr>unmatched := rest,
                       current_student := Some a,
                       status_text := status_text state @
                         [[CHR 0x0A] @ a @ '' has no more preferences - remains unmatched.'' @ [CHR 0x0A]]\<rparr>)
          else
            let s = prefs sd ! i;
                pref_index' = AList.update a (i + 1) (pref_index state);
                text1 = status_text state @
                  [[CHR 0x0A] @ ''Step '' @ str_int (step state + 1) @ '': '' @ a @ '' applies to '' @ s @ [CHR 0x0A]];
                step' = step state + 1
            in
            (case map_of (schools_dict state) s of
              None \<Rightarrow>
                Inr (state\<lparr>unmatched := rest @ [a],
                           pref_index := pref_index',
                           step := step',
                           current_student := Some a,
                           current_school := Some s,
                           status_text := text1 @
                             [''  School '' @ s @ '' doesn't exist - student tries again.'' @ [CHR 0x0A]]\<rparr>)
            | Some school_data \<Rightarrow>
                let student_score = score sd;
                    entry = \<lparr>student = a, school = s, action = None, rejected = None\<rparr>
                in
                if int (length (accepted school_data)) < capacity school_data then
                  Inr (state\<lparr>schools_dict := AList.update s
                               (school_data\<lparr>accepted := accepted school_data @ [(a, student_score)]\<rparr>)
                               (schools_dict state),
                             unmatched := rest,
                             pref_index := pref_index',
                             step := step',
                             history := history state @ [entry\<lparr>action := Some ''accepted''\<rparr>],
                             current_student := Some a,
                             current_school := Some s,
                             status_text := text1 @
                               [''  '' @ s @ '' has space and accepts '' @ a @ ''.'' @ [CHR 0x0A]]\<rparr>)
                else
                  (case sorted_by_score (accepted school_data) of
                    [] \<Rightarrow> Inl IndexError
                  | lowest # _ \<Rightarrow>
                      if student_score > snd lowest then
                        Inr (state\<lparr>schools_dict := AList.update s
                                     (school_data\<lparr>accepted :=
                                        remove1 lowest (accepted school_data) @ [(a, student_score)]\<rparr>)
                                     (schools_dict state),
                                   unmatched := rest @ [fst lowest],
                                   pref_index := pref_index',
                                   step := step',
                                   history := history state @
                                     [entry\<lparr>action := Some ''replaced'', rejected := Some (fst lowest)\<rparr>],
                                   current_student := Some a,
                                   current_school := Some s,
                                   status_text := text1 @
                                     [''  '' @ s @ '' is full but '' @ a @ '' has higher score (''
                                        @ str_int student_score @ '') than '' @ fst lowest @ '' (''
                                        @ str_int (snd lowest) @ '').'' @ [CHR 0x0A],
                                      ''  '' @ fst lowest @ '' is rejected and must try another school.''
                                        @ [CHR 0x0A]]\<rparr>)
                      else
                        Inr (state\<lparr>unmatched := rest @ [a],
                                   pref_index := pref_index',
                                   step := step',
                                   history := history state @ [entry\<lparr>action := Some ''rejected''\<rparr>],
                                   current_student := Some a,
                                   current_school := Some s,
                                   status_text := text1 @
                                     [''  '' @ s @ '' is full and '' @ a @ '''s score (''
                                        @ str_int student_score @ '') is not high enough.''
                                        @ [CHR 0x0A]]\<rparr>))))))"

text \<open>
  \<^verbatim>\<open>_animation_step\<close> (lines 1081 to 1084), the command of the step button.
\<close>

definition animation_step :: "animation_state \<Rightarrow> error + animation_state" where
  "animation_step state = animation_run_step (state\<lparr>running := False\<rparr>)"

text \<open>
  Seen through the four variables of the matching, a step on a non-empty queue is an
  iteration of the loop of \<^verbatim>\<open>gale_shapley_matching\<close>; so a step lowers the same measure.
\<close>

lemma truncate_simps [simp]:
  "student_dict (gs_state.truncate st) = student_dict st"
  "schools_dict (gs_state.truncate st) = schools_dict st"
  "unmatched (gs_state.truncate st) = unmatched st"
  "pref_index (gs_state.truncate st) = pref_index st"
  by (simp_all add: gs_state.truncate_def)

lemma animation_run_step_refines:
  assumes "unmatched st \<noteq> []"
  shows "map_sum id gs_state.truncate (animation_run_step st) = gs_iter (gs_state.truncate st)"
  using assms
  unfolding animation_run_step_def gs_iter_def Let_def
  by (auto simp: gs_state.truncate_def split: list.splits sum.splits option.splits)

text \<open>
  The dictionary that \<^verbatim>\<open>animate_matching\<close> creates (lines 1003 to 1014) before it calls
  the reset.
\<close>

definition animation_initial :: animation_state where
  "animation_initial =
     \<lparr>student_dict = [], schools_dict = [], unmatched = [], pref_index = [],
      running = False, step = 0, speed = 1, history = [],
      current_student = None, current_school = None, status_text = []\<rparr>"

lemma gs_measure_truncate [simp]: "gs_measure (gs_state.truncate st) = gs_measure st"
proof -
  have "remaining (gs_state.truncate st) = remaining st"
    by (rule remaining_cong) simp_all
  then show ?thesis
    by (simp add: gs_measure_def)
qed

lemma animation_step_refines:
  assumes "unmatched st \<noteq> []"
  shows "map_sum id gs_state.truncate (animation_step st) = gs_iter (gs_state.truncate st)"
proof -
  have "gs_state.truncate (st\<lparr>running := False\<rparr>) = gs_state.truncate st"
    by (simp add: gs_state.truncate_def)
  with animation_run_step_refines [of "st\<lparr>running := False\<rparr>"] assms show ?thesis
    by (simp add: animation_step_def)
qed

lemma animation_step_measure:
  assumes "unmatched st \<noteq> []" and "animation_step st = Inr st'"
  shows "gs_measure st' < gs_measure st"
proof -
  from animation_step_refines [OF assms(1)] assms(2)
  have "gs_iter (gs_state.truncate st) = Inr (gs_state.truncate st')"
    by simp
  from gs_iter_measure [OF this] show ?thesis
    by simp
qed

text \<open>
  Driving the session: the step button is pressed until the queue is empty.
\<close>

function drive_session :: "animation_state \<Rightarrow> error + animation_state" where
  "drive_session st =
     (if unmatched st = [] then Inr st
      else (case animation_step st of Inl e \<Rightarrow> Inl e | Inr st' \<Rightarrow> drive_session st'))"
  by pat_completeness auto
termination
  by (relation "measure gs_measure") (auto simp: animation_step_measure)

declare drive_session.simps [simp del]

section \<open>The sensitivity analysis: \<^verbatim>\<open>_run_adjusted_matching\<close>, \<^verbatim>\<open>_count_matching_changes\<close>\<close>

subsection \<open>The arithmetic of \<^verbatim>\<open>int(student.score * factor)\<close>\<close>

text \<open>
  The factor is a Python float, a finite binary64 number, here the real number it
  stands for. Python evaluates the expression in three steps. The score, an integer
  of any size, is converted to a float: the nearest binary64 number, a tie going to
  the even significand, and OverflowError when that number would be \<open>2 ^ 1024\<close> or
  more. The two floats are multiplied: the exact product rounded the same way, and
  infinity (no exception) in place of a result of \<open>2 ^ 1024\<close> or more; infinity is
  \<open>None\<close> here. \<^verbatim>\<open>int\<close> cuts the fraction off, towards zero, and raises OverflowError
  on infinity.

  A binary64 number is \<open>m * 2 ^ q\<close> with \<open>\<bar>m\<bar> < 2 ^ 53\<close> and \<open>- 1074 \<le> q\<close>. For
  \<open>2 ^ e \<le> \<bar>x\<bar> < 2 ^ (e + 1)\<close> the numbers next to \<open>x\<close> are the multiples of \<open>2 ^ q\<close>
  with \<open>q = max e (- 1022) - 52\<close>.
\<close>

definition round_half_even :: "real \<Rightarrow> int" where
  "round_half_even x =
     (let n = \<lfloor>x\<rfloor>; d = x - of_int n
      in if d < 1 / 2 then n else if 1 / 2 < d then n + 1 else if even n then n else n + 1)"

definition binary64_round :: "real \<Rightarrow> real" where
  "binary64_round x =
     (if x = 0 then 0
      else let q = max \<lfloor>log 2 \<bar>x\<bar>\<rfloor> (- 1022) - 52
           in of_int (round_half_even (x / 2 powi q)) * 2 powi q)"

definition py_float :: "int \<Rightarrow> error + real" where
  "py_float n =
     (let x = binary64_round (of_int n)
      in if 2 ^ 1024 \<le> \<bar>x\<bar> then Inl OverflowError else Inr x)"

definition float_mul :: "real \<Rightarrow> real \<Rightarrow> real option" where
  "float_mul x y =
     (let p = binary64_round (x * y)
      in if 2 ^ 1024 \<le> \<bar>p\<bar> then None else Some p)"

definition py_int :: "real option \<Rightarrow> error + int" where
  "py_int f =
     (case f of
        None \<Rightarrow> Inl OverflowError
      | Some x \<Rightarrow> Inr (if 0 \<le> x then \<lfloor>x\<rfloor> else \<lceil>x\<rceil>))"

definition adjusted_score :: "int \<Rightarrow> real \<Rightarrow> error + int" where
  "adjusted_score sc factor =
     (case py_float sc of
        Inl e \<Rightarrow> Inl e
      | Inr x \<Rightarrow> py_int (float_mul x factor))"

subsection \<open>The functions\<close>

text \<open>
  The loop that builds \<^verbatim>\<open>adjusted_students\<close> (lines 916 to 919): a new \<^verbatim>\<open>Student\<close> with the
  name and the preference list of the original and the adjusted score. An exception of
  the arithmetic ends the loop.
\<close>

fun adjusted_students :: "Student list \<Rightarrow> real \<Rightarrow> error + Student list" where
  "adjusted_students [] factor = Inr []"
| "adjusted_students (s # ss) factor =
     (case adjusted_score (Student.score s) factor of
        Inl e \<Rightarrow> Inl e
      | Inr sc \<Rightarrow>
          (case adjusted_students ss factor of
             Inl e \<Rightarrow> Inl e
           | Inr rest \<Rightarrow>
               Inr (\<lparr>Student.name = Student.name s, preferences = preferences s, score = sc\<rparr> # rest)))"

text \<open>
  \<^verbatim>\<open>_run_adjusted_matching\<close> returns the matching and leaves the application object in
  the second component. The source restores \<^verbatim>\<open>self.students\<close> only after the matching
  has returned: an exception of the matching leaves the adjusted list in place.
\<close>

definition run_adjusted_matching ::
  "CollegeAdmissionsApp \<Rightarrow> real \<Rightarrow> (error + (string \<times> string list) list) \<times> CollegeAdmissionsApp" where
  "run_adjusted_matching self factor =
     (case adjusted_students (students self) factor of
        Inl e \<Rightarrow> (Inl e, self)
      | Inr adjusted \<Rightarrow>
          (let original_students = students self;
               self1 = self\<lparr>students := adjusted\<rparr>
           in case gale_shapley_matching self1 of
                Inl e \<Rightarrow> (Inl e, self1)
              | Inr adjusted_matches \<Rightarrow>
                  (Inr adjusted_matches, self1\<lparr>students := original_students\<rparr>)))"

text \<open>
  \<^verbatim>\<open>_count_matching_changes\<close> (lines 960 to 969): over the union of the keys of the two
  dictionaries, the size of the symmetric difference of the two sets of names; a
  missing key counts as the empty list.
\<close>

definition count_matching_changes ::
  "(string \<times> string list) list \<Rightarrow> (string \<times> string list) list \<Rightarrow> nat" where
  "count_matching_changes original_matches adjusted_matches =
     (\<Sum>sch \<in> fst ` set original_matches \<union> fst ` set adjusted_matches.
        let original_set = set (case map_of original_matches sch of None \<Rightarrow> [] | Some v \<Rightarrow> v);
            adjusted_set = set (case map_of adjusted_matches sch of None \<Rightarrow> [] | Some v \<Rightarrow> v)
        in card ((original_set - adjusted_set) \<union> (adjusted_set - original_set)))"

section \<open>Well-typed inputs, invariants and scenarios\<close>

text \<open>
  The inputs that the claims are about: unique applicant names, unique school names
  (the keys of a dictionary) and positive capacities. Then the predicates that hold in
  every state of the loop on such an input, the states after a number of iterations,
  and the inputs that the theorems are evaluated on, the first three the scenarios of
  the specification.
\<close>

definition well_typed :: "CollegeAdmissionsApp \<Rightarrow> bool" where
  "well_typed app \<longleftrightarrow>
     distinct (map Student.name (students app)) \<and>
     distinct (map fst (schools app)) \<and>
     (\<forall>(n, school) \<in> set (schools app). 0 < School.capacity school)"

text \<open>
  An applicant has applied to a school when the school stands in its preference list
  before its cursor: every pop that advances the cursor is one application.
\<close>

definition applied :: "'a gs_state_scheme \<Rightarrow> string \<Rightarrow> string \<Rightarrow> bool" where
  "applied st a s =
     (case map_of (student_dict st) a of
        None \<Rightarrow> False
      | Some sd \<Rightarrow> (case map_of (pref_index st) a of
                     None \<Rightarrow> False
                   | Some c \<Rightarrow> s \<in> set (take c (prefs sd))))"

text \<open>
  What never changes: the dictionary of the applicants, the keys and the capacities
  of the schools, the keys of the cursors.
\<close>

definition inv_static :: "CollegeAdmissionsApp \<Rightarrow> 'a gs_state_scheme \<Rightarrow> bool" where
  "inv_static app st \<longleftrightarrow>
     student_dict st = map (\<lambda>s. (Student.name s,
          \<lparr>prefs = preferences s, score = Student.score s\<rparr>)) (students app) \<and>
     map fst (schools_dict st) = map fst (schools app) \<and>
     (\<forall>s d. map_of (schools_dict st) s = Some d \<longrightarrow>
        (\<exists>school. map_of (schools app) s = Some school \<and> capacity d = School.capacity school)) \<and>
     map fst (pref_index st) = map Student.name (students app)"

text \<open>
  The queue holds every name at most once, and only names of applicants.
\<close>

definition inv_queue :: "'a gs_state_scheme \<Rightarrow> bool" where
  "inv_queue st \<longleftrightarrow>
     distinct (unmatched st) \<and>
     set (unmatched st) \<subseteq> fst ` set (student_dict st)"

text \<open>
  An accepted list holds every name at most once; whoever is in it is not in the
  queue, has applied to the school, stands there with its own score, and is in no
  other accepted list.
\<close>

definition inv_accepted :: "'a gs_state_scheme \<Rightarrow> bool" where
  "inv_accepted st \<longleftrightarrow>
     (\<forall>s d. map_of (schools_dict st) s = Some d \<longrightarrow>
        distinct (map fst (accepted d)) \<and>
        (\<forall>a sc. (a, sc) \<in> set (accepted d) \<longrightarrow>
           a \<notin> set (unmatched st) \<and> applied st a s \<and>
           (\<exists>sd. map_of (student_dict st) a = Some sd \<and> score sd = sc) \<and>
           (\<forall>s' d'. map_of (schools_dict st) s' = Some d' \<longrightarrow> a \<in> fst ` set (accepted d') \<longrightarrow> s' = s)))"

text \<open>
  Capacities are positive, and no accepted list is longer than the capacity.
\<close>

definition inv_capacity :: "'a gs_state_scheme \<Rightarrow> bool" where
  "inv_capacity st \<longleftrightarrow>
     (\<forall>s d. map_of (schools_dict st) s = Some d \<longrightarrow>
        0 < capacity d \<and> int (length (accepted d)) \<le> capacity d)"

text \<open>
  Whoever has applied to a school is in its accepted list, or the school is full and
  every member scores at least as high.
\<close>

definition inv_stable :: "'a gs_state_scheme \<Rightarrow> bool" where
  "inv_stable st \<longleftrightarrow>
     (\<forall>a s sd d. applied st a s \<longrightarrow> map_of (student_dict st) a = Some sd \<longrightarrow>
        map_of (schools_dict st) s = Some d \<longrightarrow>
        (a, score sd) \<in> set (accepted d) \<or>
        (int (length (accepted d)) = capacity d \<and> (\<forall>b sb. (b, sb) \<in> set (accepted d) \<longrightarrow> score sd \<le> sb)))"

definition gs_inv :: "CollegeAdmissionsApp \<Rightarrow> gs_state \<Rightarrow> bool" where
  "gs_inv app st \<longleftrightarrow>
     inv_static app st \<and> inv_queue st \<and> inv_accepted st \<and> inv_capacity st \<and> inv_stable st"

text \<open>
  The state after \<open>n\<close> iterations of the loop, or the final state when the loop ends
  earlier: the states that a run reaches.
\<close>

fun gs_steps :: "nat \<Rightarrow> gs_state \<Rightarrow> error + gs_state" where
  "gs_steps 0 st = Inr st"
| "gs_steps (Suc n) st =
     (if unmatched st = [] then Inr st
      else (case gs_iter st of Inl e \<Rightarrow> Inl e | Inr st' \<Rightarrow> gs_steps n st'))"

text \<open>
  The three scenarios of the specification.
\<close>

definition scenario1 :: CollegeAdmissionsApp where
  "scenario1 =
     \<lparr>students = [\<lparr>Student.name = ''A'', preferences = [''X'', ''Y''], score = 95\<rparr>,
                  \<lparr>Student.name = ''B'', preferences = [''X'', ''Y''], score = 80\<rparr>],
      schools = [(''X'', \<lparr>School.name = ''X'', capacity = 1, accepted = []\<rparr>),
                 (''Y'', \<lparr>School.name = ''Y'', capacity = 1, accepted = []\<rparr>)]\<rparr>"

definition scenario2 :: CollegeAdmissionsApp where
  "scenario2 =
     \<lparr>students = [\<lparr>Student.name = ''A'', preferences = [''X''], score = 70\<rparr>,
                  \<lparr>Student.name = ''B'', preferences = [''X''], score = 90\<rparr>],
      schools = [(''X'', \<lparr>School.name = ''X'', capacity = 1, accepted = []\<rparr>)]\<rparr>"

definition scenario3 :: CollegeAdmissionsApp where
  "scenario3 =
     \<lparr>students = [\<lparr>Student.name = ''C'', preferences = [''Ghost'', ''Y''], score = 50\<rparr>],
      schools = [(''Y'', \<lparr>School.name = ''Y'', capacity = 1, accepted = []\<rparr>)]\<rparr>"

text \<open>
  A name that is neither in the queue nor in an accepted list.
\<close>

definition absent :: "string \<Rightarrow> gs_state \<Rightarrow> bool" where
  "absent a st \<longleftrightarrow>
     a \<notin> set (unmatched st) \<and>
     (\<forall>s d. map_of (schools_dict st) s = Some d \<longrightarrow> a \<notin> fst ` set (accepted d))"

text \<open>
  Further inputs: two applicants admitted to one school in ascending order of their
  scores, a school that an applicant lists but never applies to, a negative score,
  and two scores at \<open>2 ^ 53\<close>, where binary64 numbers are two apart.
\<close>

definition scenario_order :: CollegeAdmissionsApp where
  "scenario_order =
     \<lparr>students = [\<lparr>Student.name = ''A'', preferences = [''X''], score = 50\<rparr>,
                  \<lparr>Student.name = ''B'', preferences = [''X''], score = 90\<rparr>],
      schools = [(''X'', \<lparr>School.name = ''X'', capacity = 2, accepted = []\<rparr>)]\<rparr>"

definition scenario_listed :: CollegeAdmissionsApp where
  "scenario_listed =
     \<lparr>students = [\<lparr>Student.name = ''A'', preferences = [''X'', ''Z''], score = 70\<rparr>],
      schools = [(''X'', \<lparr>School.name = ''X'', capacity = 1, accepted = []\<rparr>),
                 (''Z'', \<lparr>School.name = ''Z'', capacity = 1, accepted = []\<rparr>)]\<rparr>"

definition scenario_negative :: CollegeAdmissionsApp where
  "scenario_negative =
     \<lparr>students = [\<lparr>Student.name = ''A'', preferences = [''X''], score = - 3\<rparr>],
      schools = [(''X'', \<lparr>School.name = ''X'', capacity = 1, accepted = []\<rparr>)]\<rparr>"

definition scenario_big :: CollegeAdmissionsApp where
  "scenario_big =
     \<lparr>students = [\<lparr>Student.name = ''B'', preferences = [''X''], score = 9007199254740992\<rparr>,
                  \<lparr>Student.name = ''A'', preferences = [''X''], score = 9007199254740993\<rparr>],
      schools = [(''X'', \<lparr>School.name = ''X'', capacity = 1, accepted = []\<rparr>)]\<rparr>"

section \<open>Properties of the model\<close>

subsection \<open>The invariants of the loop\<close>

lemma dict_of_distinct:
  "distinct (map fst kvs) \<Longrightarrow> dict_of kvs = kvs"
proof -
  have "distinct (map fst (acc @ kvs)) \<Longrightarrow>
        foldl (\<lambda>d kv. AList.update (fst kv) (snd kv) d) acc kvs = acc @ kvs" for acc
  proof (induction kvs arbitrary: acc)
    case Nil
    then show ?case by simp
  next
    case (Cons kv kvs)
    have "AList.update (fst kv) (snd kv) acc = acc @ [kv]"
      using Cons.prems by (induction acc) auto
    moreover have "distinct (map fst ((acc @ [kv]) @ kvs))"
      using Cons.prems by simp
    ultimately show ?case
      using Cons.IH [of "acc @ [kv]"] by simp
  qed
  from this [of "[]"] show "distinct (map fst kvs) \<Longrightarrow> dict_of kvs = kvs"
    by (simp add: dict_of_def)
qed

lemma applied_same:
  "student_dict st' = student_dict st \<Longrightarrow> pref_index st' = pref_index st
   \<Longrightarrow> applied st' = applied st"
  by (auto simp: applied_def fun_eq_iff split: option.splits)

lemma applied_advance:
  assumes "map_of (student_dict st) a = Some sd"
    and "map_of (pref_index st) a = Some i"
    and "i < length (prefs sd)"
    and "student_dict st' = student_dict st"
    and "map_of (pref_index st') = (map_of (pref_index st))(a \<mapsto> i + 1)"
  shows "applied st' b s \<longleftrightarrow> applied st b s \<or> (b = a \<and> s = prefs sd ! i)"
  using assms
  by (auto simp: applied_def take_Suc_conv_app_nth split: option.splits)

lemma sorted_by_score_lowest:
  assumes "sorted_by_score xs = lowest # others"
  shows "lowest \<in> set xs" and "\<forall>x \<in> set xs. snd lowest \<le> snd x"
proof -
  have s: "set (lowest # others) = set xs"
    using assms by (metis sorted_by_score_def set_sort)
  then show "lowest \<in> set xs" by auto
  have "sorted (map snd (lowest # others))"
    using assms by (metis sorted_by_score_def sorted_sort_key)
  then have "\<forall>x \<in> set (lowest # others). snd lowest \<le> snd x"
    by auto
  with s show "\<forall>x \<in> set xs. snd lowest \<le> snd x" by simp
qed

lemma gs_init_well_typed:
  assumes "well_typed app"
  shows "gs_init app =
     \<lparr>student_dict = map (\<lambda>s. (Student.name s,
          \<lparr>prefs = preferences s, score = Student.score s\<rparr>)) (students app),
      schools_dict = map (\<lambda>(n, school). (n,
          \<lparr>capacity = School.capacity school, accepted = []\<rparr>)) (schools app),
      unmatched = map Student.name (students app),
      pref_index = map (\<lambda>s. (Student.name s, 0)) (students app)\<rparr>"
proof -
  have "distinct (map fst (map (\<lambda>s. (Student.name s,
          \<lparr>prefs = preferences s, score = Student.score s\<rparr>)) (students app)))"
    using assms by (simp add: well_typed_def comp_def)
  moreover have "distinct (map fst (map (\<lambda>(n, school). (n,
          \<lparr>capacity = School.capacity school, accepted = []\<rparr>)) (schools app)))"
    using assms by (simp add: well_typed_def comp_def case_prod_unfold)
  moreover have "distinct (map fst (map (\<lambda>s. (Student.name s, 0::nat)) (students app)))"
    using assms by (simp add: well_typed_def comp_def)
  ultimately show ?thesis
    by (simp add: gs_init_def dict_of_distinct)
qed

lemma map_of_init_schools:
  "map_of (map (\<lambda>(n, school). (n, \<lparr>capacity = School.capacity school, accepted = []\<rparr>)) xs) s = Some d
   \<Longrightarrow> \<exists>school. map_of xs s = Some school \<and> d = \<lparr>capacity = School.capacity school, accepted = []\<rparr>"
  by (induction xs) (auto split: if_splits)

lemma map_fst_init_schools:
  "map fst (map (\<lambda>(n, school). (n, \<lparr>capacity = School.capacity school, accepted = []\<rparr>)) xs)
   = map fst xs"
  by (induction xs) auto

lemma gs_init_static: "well_typed app \<Longrightarrow> inv_static app (gs_init app)"
  by (auto simp: gs_init_well_typed inv_static_def comp_def map_fst_init_schools
      dest: map_of_init_schools)

lemma gs_init_queue: "well_typed app \<Longrightarrow> inv_queue (gs_init app)"
  by (auto simp: gs_init_well_typed inv_queue_def well_typed_def image_iff)

lemma gs_init_accepted: "well_typed app \<Longrightarrow> inv_accepted (gs_init app)"
  by (auto simp: gs_init_well_typed inv_accepted_def dest!: map_of_init_schools)

lemma gs_init_capacity:
  assumes "well_typed app"
  shows "inv_capacity (gs_init app)"
proof -
  have "0 < capacity d \<and> int (length (accepted d)) \<le> capacity d"
    if "map_of (schools_dict (gs_init app)) s = Some d" for s d
  proof -
    from that obtain school where school: "map_of (schools app) s = Some school"
      and d: "d = \<lparr>capacity = School.capacity school, accepted = []\<rparr>"
      using map_of_init_schools [of "schools app" s d] assms
      by (auto simp: gs_init_well_typed)
    from school have "(s, school) \<in> set (schools app)"
      by (rule map_of_SomeD)
    with assms have "0 < School.capacity school"
      by (auto simp: well_typed_def)
    with d show ?thesis by simp
  qed
  then show ?thesis
    by (simp add: inv_capacity_def)
qed

lemma map_of_init_cursor:
  "map_of (map (\<lambda>s. (Student.name s, 0::nat)) xs) a = Some c \<Longrightarrow> c = 0"
  by (induction xs) (auto split: if_splits)

lemma gs_init_stable: "well_typed app \<Longrightarrow> inv_stable (gs_init app)"
  by (auto simp: gs_init_well_typed inv_stable_def applied_def
      split: option.splits dest!: map_of_init_cursor)

lemma map_fst_update_present:
  "map_of al k = Some v \<Longrightarrow> map fst (AList.update k v' al) = map fst al"
  by (simp add: update_keys) (metis domI dom_map_of_conv_image_fst image_set)

lemma gs_iter_static:
  assumes "gs_iter st = Inr st'" and "inv_static app st"
  shows "inv_static app st'"
  using assms(1)
proof (cases rule: gs_iter_cases)
  case (Discard a rest sd i)
  with assms(2) show ?thesis by (simp add: inv_static_def)
next
  case (Unknown a rest sd i)
  with assms(2) show ?thesis by (simp add: inv_static_def map_fst_update_present)
next
  case (Accept a rest sd i d)
  with assms(2) show ?thesis
    by (auto simp: inv_static_def map_fst_update_present update_conv')
next
  case (Replace a rest sd i d lowest others)
  with assms(2) show ?thesis
    by (auto simp: inv_static_def map_fst_update_present update_conv')
next
  case (Reject a rest sd i d lowest others)
  with assms(2) show ?thesis by (simp add: inv_static_def map_fst_update_present)
qed

lemma gs_iter_capacity:
  assumes "gs_iter st = Inr st'" and "inv_capacity st"
  shows "inv_capacity st'"
  using assms(1)
proof (cases rule: gs_iter_cases)
  case (Discard a rest sd i)
  with assms(2) show ?thesis by (simp add: inv_capacity_def)
next
  case (Unknown a rest sd i)
  with assms(2) show ?thesis by (simp add: inv_capacity_def)
next
  case (Accept a rest sd i d)
  with assms(2) show ?thesis
    by (auto simp: inv_capacity_def update_conv')
next
  case (Replace a rest sd i d lowest others)
  have "lowest \<in> set (accepted d)"
    using Replace(7) by (rule sorted_by_score_lowest)
  then have "length (remove1 lowest (accepted d)) = length (accepted d) - 1"
    by (simp add: length_remove1)
  moreover have "accepted d \<noteq> []"
    using \<open>lowest \<in> set (accepted d)\<close> by auto
  ultimately have "length (remove1 lowest (accepted d) @ [(a, score sd)]) = length (accepted d)"
    by (cases "accepted d") auto
  with Replace assms(2) show ?thesis
    by (auto simp: inv_capacity_def update_conv' simp del: length_append)
next
  case (Reject a rest sd i d lowest others)
  with assms(2) show ?thesis by (simp add: inv_capacity_def)
qed

lemma gs_iter_queue:
  assumes "gs_iter st = Inr st'" and "inv_queue st" and "inv_accepted st"
  shows "inv_queue st'"
  using assms(1)
proof (cases rule: gs_iter_cases)
  case (Discard a rest sd i)
  with assms(2) show ?thesis by (auto simp: inv_queue_def)
next
  case (Unknown a rest sd i)
  with assms(2) show ?thesis by (auto simp: inv_queue_def)
next
  case (Accept a rest sd i d)
  with assms(2) show ?thesis by (auto simp: inv_queue_def)
next
  case (Replace a rest sd i d lowest others)
  have low: "(fst lowest, snd lowest) \<in> set (accepted d)"
    using sorted_by_score_lowest(1) [OF Replace(7)] by simp
  with assms(3) Replace(5) have "fst lowest \<notin> set (unmatched st)"
    and "\<exists>sd. map_of (student_dict st) (fst lowest) = Some sd"
    unfolding inv_accepted_def by blast+
  then have "fst lowest \<notin> set rest" "fst lowest \<in> fst ` set (student_dict st)"
    using Replace(1) by (auto simp: dom_map_of_conv_image_fst [symmetric])
  with Replace assms(2) show ?thesis by (auto simp: inv_queue_def)
next
  case (Reject a rest sd i d lowest others)
  with assms(2) show ?thesis by (auto simp: inv_queue_def)
qed

lemma map_fst_remove1:
  "distinct (map fst xs) \<Longrightarrow> x \<in> set xs \<Longrightarrow> fst ` set (remove1 x xs) = fst ` set xs - {fst x}"
  by (induction xs) (auto simp: image_iff)

lemma distinct_map_fst_remove1:
  "distinct (map fst xs) \<Longrightarrow> distinct (map fst (remove1 x xs))"
  by (induction xs) (auto simp: image_iff dest: notin_set_remove1)

lemma gs_iter_accepted:
  assumes it: "gs_iter st = Inr st'" and q: "inv_queue st" and acc: "inv_accepted st"
  shows "inv_accepted st'"
  using it
proof (cases rule: gs_iter_cases)
  case (Discard a rest sd i)
  have "applied st' = applied st"
    by (rule applied_same) (simp_all add: Discard)
  show ?thesis
    unfolding inv_accepted_def
  proof (intro allI impI conjI)
    fix s d assume d: "map_of (schools_dict st') s = Some d"
    then have d0: "map_of (schools_dict st) s = Some d" using Discard by simp
    show "distinct (map fst (accepted d))"
      using acc d0 unfolding inv_accepted_def by blast
    fix b sc assume b: "(b, sc) \<in> set (accepted d)"
    from acc d0 b have old: "b \<notin> set (unmatched st)" "applied st b s"
      "\<exists>sd. map_of (student_dict st) b = Some sd \<and> score sd = sc"
      "\<forall>s' d'. map_of (schools_dict st) s' = Some d' \<longrightarrow> b \<in> fst ` set (accepted d') \<longrightarrow> s' = s"
      unfolding inv_accepted_def by blast+
    from old(1) show "b \<notin> set (unmatched st')" using Discard by auto
    show "applied st' b s" using old(2) \<open>applied st' = applied st\<close> by simp
    show "\<exists>sd. map_of (student_dict st') b = Some sd \<and> score sd = sc"
      using old(3) Discard by simp
    fix s' d' assume "map_of (schools_dict st') s' = Some d'" "b \<in> fst ` set (accepted d')"
    then show "s' = s" using old(4) Discard by simp
  qed
next
  case (Unknown a rest sd i)
  have ap: "\<And>b s. applied st b s \<Longrightarrow> applied st' b s"
    using applied_advance [of st a sd i st'] Unknown by (simp add: update_conv')
  have notin: "\<And>s d sc. map_of (schools_dict st) s = Some d \<Longrightarrow> (a, sc) \<notin> set (accepted d)"
    using acc Unknown(1) unfolding inv_accepted_def by fastforce
  show ?thesis
    unfolding inv_accepted_def
  proof (intro allI impI conjI)
    fix s d assume d: "map_of (schools_dict st') s = Some d"
    then have d0: "map_of (schools_dict st) s = Some d" using Unknown by simp
    show "distinct (map fst (accepted d))"
      using acc d0 unfolding inv_accepted_def by blast
    fix b sc assume b: "(b, sc) \<in> set (accepted d)"
    from acc d0 b have old: "b \<notin> set (unmatched st)" "applied st b s"
      "\<exists>sd. map_of (student_dict st) b = Some sd \<and> score sd = sc"
      "\<forall>s' d'. map_of (schools_dict st) s' = Some d' \<longrightarrow> b \<in> fst ` set (accepted d') \<longrightarrow> s' = s"
      unfolding inv_accepted_def by blast+
    have "b \<noteq> a" using notin [OF d0] b by auto
    with old(1) show "b \<notin> set (unmatched st')" using Unknown by auto
    show "applied st' b s" using old(2) by (rule ap)
    show "\<exists>sd. map_of (student_dict st') b = Some sd \<and> score sd = sc"
      using old(3) Unknown by simp
    fix s' d' assume "map_of (schools_dict st') s' = Some d'" "b \<in> fst ` set (accepted d')"
    then show "s' = s" using old(4) Unknown by simp
  qed
next
  case (Reject a rest sd i d0 lowest others)
  have ap: "\<And>b s. applied st b s \<Longrightarrow> applied st' b s"
    using applied_advance [of st a sd i st'] Reject by (simp add: update_conv')
  have notin: "\<And>s d sc. map_of (schools_dict st) s = Some d \<Longrightarrow> (a, sc) \<notin> set (accepted d)"
    using acc Reject(1) unfolding inv_accepted_def by fastforce
  show ?thesis
    unfolding inv_accepted_def
  proof (intro allI impI conjI)
    fix s d assume d: "map_of (schools_dict st') s = Some d"
    then have d0: "map_of (schools_dict st) s = Some d" using Reject by simp
    show "distinct (map fst (accepted d))"
      using acc d0 unfolding inv_accepted_def by blast
    fix b sc assume b: "(b, sc) \<in> set (accepted d)"
    from acc d0 b have old: "b \<notin> set (unmatched st)" "applied st b s"
      "\<exists>sd. map_of (student_dict st) b = Some sd \<and> score sd = sc"
      "\<forall>s' d'. map_of (schools_dict st) s' = Some d' \<longrightarrow> b \<in> fst ` set (accepted d') \<longrightarrow> s' = s"
      unfolding inv_accepted_def by blast+
    have "b \<noteq> a" using notin [OF d0] b by auto
    with old(1) show "b \<notin> set (unmatched st')" using Reject by auto
    show "applied st' b s" using old(2) by (rule ap)
    show "\<exists>sd. map_of (student_dict st') b = Some sd \<and> score sd = sc"
      using old(3) Reject by simp
    fix s' d' assume "map_of (schools_dict st') s' = Some d'" "b \<in> fst ` set (accepted d')"
    then show "s' = s" using old(4) Reject by simp
  qed
next
  case (Accept a rest sd i d0)
  let ?s0 = "prefs sd ! i"
  let ?d1 = "d0\<lparr>accepted := accepted d0 @ [(a, score sd)]\<rparr>"
  have ap: "\<And>b s. applied st' b s \<longleftrightarrow> applied st b s \<or> (b = a \<and> s = ?s0)"
    using applied_advance [of st a sd i st'] Accept by (simp add: update_conv')
  have sch: "map_of (schools_dict st') = (map_of (schools_dict st))(?s0 \<mapsto> ?d1)"
    using Accept by (simp add: update_conv')
  have notin: "\<And>s d. map_of (schools_dict st) s = Some d \<Longrightarrow> a \<notin> fst ` set (accepted d)"
    using acc Accept(1) unfolding inv_accepted_def by fastforce
  have arest: "a \<notin> set rest"
    using q Accept(1) by (simp add: inv_queue_def)
  have members: "fst ` set (accepted d') \<subseteq> (if s' = ?s0 then insert a (fst ` set (accepted d0)) else
       (case map_of (schools_dict st) s' of None \<Rightarrow> {} | Some d \<Rightarrow> fst ` set (accepted d)))"
    if "map_of (schools_dict st') s' = Some d'" for s' d'
    using that by (auto simp: sch split: if_splits)
  show ?thesis
    unfolding inv_accepted_def
  proof (intro allI impI conjI)
    fix s d assume d: "map_of (schools_dict st') s = Some d"
    show "distinct (map fst (accepted d))"
    proof (cases "s = ?s0")
      case True
      then have "d = ?d1" using d sch by simp
      moreover have "distinct (map fst (accepted d0))"
        using acc Accept(5) unfolding inv_accepted_def by blast
      ultimately show ?thesis using notin [OF Accept(5)] by simp
    next
      case False
      then have "map_of (schools_dict st) s = Some d" using d sch by simp
      then show ?thesis using acc unfolding inv_accepted_def by blast
    qed
    fix b sc assume b: "(b, sc) \<in> set (accepted d)"
    show "b \<notin> set (unmatched st')" "applied st' b s"
      "\<exists>sd. map_of (student_dict st') b = Some sd \<and> score sd = sc"
    proof -
      consider (new) "s = ?s0" "b = a" "sc = score sd"
        | (old) d' where "map_of (schools_dict st) s = Some d'" "(b, sc) \<in> set (accepted d')"
        using d b sch by (cases "s = ?s0") (auto simp: Accept(5))
      then have "b \<notin> set (unmatched st') \<and> applied st' b s \<and>
          (\<exists>sd. map_of (student_dict st') b = Some sd \<and> score sd = sc)"
      proof cases
        case new
        then show ?thesis using arest Accept ap by simp
      next
        case old
        with acc have o: "b \<notin> set (unmatched st)" "applied st b s"
          "\<exists>sd. map_of (student_dict st) b = Some sd \<and> score sd = sc"
          unfolding inv_accepted_def by blast+
        then show ?thesis using Accept ap by simp
      qed
      then show "b \<notin> set (unmatched st')" "applied st' b s"
        "\<exists>sd. map_of (student_dict st') b = Some sd \<and> score sd = sc"
        by blast+
    qed
    fix s' d' assume d': "map_of (schools_dict st') s' = Some d'" and b': "b \<in> fst ` set (accepted d')"
    show "s' = s"
    proof (cases "b = a")
      case True
      have "s' = ?s0"
      proof (rule ccontr)
        assume "s' \<noteq> ?s0"
        then have "map_of (schools_dict st) s' = Some d'" using d' sch by simp
        from notin [OF this] b' True show False by simp
      qed
      moreover have "s = ?s0"
      proof (rule ccontr)
        assume "s \<noteq> ?s0"
        then have "map_of (schools_dict st) s = Some d" using d sch by simp
        from notin [OF this] b True show False by (force simp: image_iff)
      qed
      ultimately show ?thesis by simp
    next
      case False
      obtain e where e: "map_of (schools_dict st) s = Some e" "(b, sc) \<in> set (accepted e)"
        using d b sch False by (cases "s = ?s0") (auto simp: Accept(5))
      have "\<exists>e'. map_of (schools_dict st) s' = Some e' \<and> b \<in> fst ` set (accepted e')"
      proof (cases "s' = ?s0")
        case True
        then have "d' = ?d1" using d' sch by simp
        with b' False have "b \<in> fst ` set (accepted d0)" by auto
        with True Accept(5) show ?thesis by simp
      next
        case False
        then show ?thesis using d' b' sch by simp
      qed
      then obtain e' where e': "map_of (schools_dict st) s' = Some e'" "b \<in> fst ` set (accepted e')"
        by blast
      from acc e e' show ?thesis
        unfolding inv_accepted_def by blast
    qed
  qed
next
  case (Replace a rest sd i d0 lowest others)
  let ?s0 = "prefs sd ! i"
  let ?d1 = "d0\<lparr>accepted := remove1 lowest (accepted d0) @ [(a, score sd)]\<rparr>"
  have ap: "\<And>b s. applied st' b s \<longleftrightarrow> applied st b s \<or> (b = a \<and> s = ?s0)"
    using applied_advance [of st a sd i st'] Replace by (simp add: update_conv')
  have sch: "map_of (schools_dict st') = (map_of (schools_dict st))(?s0 \<mapsto> ?d1)"
    using Replace by (simp add: update_conv')
  have notin: "\<And>s d. map_of (schools_dict st) s = Some d \<Longrightarrow> a \<notin> fst ` set (accepted d)"
    using acc Replace(1) unfolding inv_accepted_def by fastforce
  have arest: "a \<notin> set rest"
    using q Replace(1) by (simp add: inv_queue_def)
  have low: "lowest \<in> set (accepted d0)"
    using sorted_by_score_lowest(1) [OF Replace(7)] .
  have dist0: "distinct (map fst (accepted d0))"
    using acc Replace(5) unfolding inv_accepted_def by blast
  have rem: "fst ` set (remove1 lowest (accepted d0)) = fst ` set (accepted d0) - {fst lowest}"
    using dist0 low by (rule map_fst_remove1)
  have low_only: "s = ?s0" if "map_of (schools_dict st) s = Some e" "fst lowest \<in> fst ` set (accepted e)" for s e
  proof -
    have "(fst lowest, snd lowest) \<in> set (accepted d0)" using low by simp
    with acc Replace(5) that show ?thesis
      unfolding inv_accepted_def by blast
  qed
  have low_a: "fst lowest \<noteq> a"
    using notin [OF Replace(5)] low by (auto simp: image_iff)
  have low_rest: "fst lowest \<notin> set rest"
  proof -
    have "(fst lowest, snd lowest) \<in> set (accepted d0)" using low by simp
    with acc Replace(5) have "fst lowest \<notin> set (unmatched st)"
      unfolding inv_accepted_def by blast
    then show ?thesis using Replace(1) by simp
  qed
  show ?thesis
    unfolding inv_accepted_def
  proof (intro allI impI conjI)
    fix s d assume d: "map_of (schools_dict st') s = Some d"
    show "distinct (map fst (accepted d))"
    proof (cases "s = ?s0")
      case True
      then have "d = ?d1" using d sch by simp
      moreover have "distinct (map fst (remove1 lowest (accepted d0)))"
        using dist0 by (rule distinct_map_fst_remove1)
      moreover have "a \<notin> fst ` set (remove1 lowest (accepted d0))"
        using notin [OF Replace(5)] rem by simp
      ultimately show ?thesis by simp
    next
      case False
      then have "map_of (schools_dict st) s = Some d" using d sch by simp
      then show ?thesis using acc unfolding inv_accepted_def by blast
    qed
    fix b sc assume b: "(b, sc) \<in> set (accepted d)"
    consider (new) "s = ?s0" "b = a" "sc = score sd"
      | (old) e where "map_of (schools_dict st) s = Some e" "(b, sc) \<in> set (accepted e)"
          "b \<noteq> fst lowest"
    proof (cases "s = ?s0")
      case True
      then have "d = ?d1" using d sch by simp
      with b have "(b, sc) = (a, score sd) \<or> (b, sc) \<in> set (remove1 lowest (accepted d0))"
        by auto
      then show ?thesis
      proof
        assume "(b, sc) = (a, score sd)"
        then show ?thesis using new True by simp
      next
        assume r: "(b, sc) \<in> set (remove1 lowest (accepted d0))"
        then have "b \<in> fst ` set (remove1 lowest (accepted d0))" by (force simp: image_iff)
        then have "b \<noteq> fst lowest" using rem by simp
        moreover have "(b, sc) \<in> set (accepted d0)" using r set_remove1_subset by fastforce
        ultimately show ?thesis using old [of d0] True Replace(5) by simp
      qed
    next
      case False
      then have e: "map_of (schools_dict st) s = Some d" using d sch by simp
      have "b \<noteq> fst lowest"
      proof
        assume "b = fst lowest"
        then have "fst lowest \<in> fst ` set (accepted d)" using b by (metis fst_conv image_eqI)
        from low_only [OF e this] False show False by simp
      qed
      then show ?thesis using old [of d] e b by simp
    qed
    note cases_b = this
    have "b \<notin> set (unmatched st') \<and> applied st' b s \<and>
          (\<exists>sd. map_of (student_dict st') b = Some sd \<and> score sd = sc)"
    proof (cases rule: cases_b)
      case new
      then show ?thesis using arest low_a Replace ap by simp
    next
      case (old e)
      with acc have o: "b \<notin> set (unmatched st)" "applied st b s"
        "\<exists>sd. map_of (student_dict st) b = Some sd \<and> score sd = sc"
        unfolding inv_accepted_def by blast+
      then show ?thesis using Replace ap old(3) by simp
    qed
    then show "b \<notin> set (unmatched st')" "applied st' b s"
      "\<exists>sd. map_of (student_dict st') b = Some sd \<and> score sd = sc"
      by blast+
    fix s' d' assume d': "map_of (schools_dict st') s' = Some d'" and b': "b \<in> fst ` set (accepted d')"
    have sub: "b = a \<and> s' = ?s0 \<or> (\<exists>e'. map_of (schools_dict st) s' = Some e' \<and> b \<in> fst ` set (accepted e'))"
    proof (cases "s' = ?s0")
      case True
      then have "d' = ?d1" using d' sch by simp
      with b' have "b = a \<or> b \<in> fst ` set (remove1 lowest (accepted d0))" by auto
      then show ?thesis using True rem Replace(5) by auto
    next
      case False
      then show ?thesis using d' b' sch by simp
    qed
    show "s' = s"
    proof (cases rule: cases_b)
      case new
      then show ?thesis using sub notin by auto
    next
      case (old e)
      have "b \<noteq> a" using notin [OF old(1)] old(2) by (force simp: image_iff)
      with sub obtain e' where "map_of (schools_dict st) s' = Some e'" "b \<in> fst ` set (accepted e')"
        by blast
      with acc old show ?thesis
        unfolding inv_accepted_def by blast
    qed
  qed
qed

lemma length_replace_lowest:
  assumes "x \<in> set xs"
  shows "length (remove1 x xs @ [y]) = length xs"
proof -
  have "0 < length xs"
    using assms by (rule length_pos_if_in_set)
  then show ?thesis
    using assms by (simp add: length_remove1)
qed

lemma gs_iter_stable:
  assumes it: "gs_iter st = Inr st'" and cap: "inv_capacity st" and stab: "inv_stable st"
  shows "inv_stable st'"
  using it
proof (cases rule: gs_iter_cases)
  case (Discard a rest sd i)
  have "applied st' = applied st"
    by (rule applied_same) (simp_all add: Discard)
  with stab Discard show ?thesis
    by (simp add: inv_stable_def)
next
  case (Unknown a rest sd i)
  let ?s0 = "prefs sd ! i"
  have ap: "\<And>b s. applied st' b s \<longleftrightarrow> applied st b s \<or> (b = a \<and> s = ?s0)"
    using applied_advance [of st a sd i st'] Unknown by (simp add: update_conv')
  show ?thesis
    unfolding inv_stable_def
  proof (intro allI impI)
    fix b s sdb d
    assume b: "applied st' b s" "map_of (student_dict st') b = Some sdb"
      "map_of (schools_dict st') s = Some d"
    then have "s \<noteq> ?s0" using Unknown by auto
    with b ap have "applied st b s" by simp
    with stab b Unknown show "(b, score sdb) \<in> set (accepted d) \<or>
        int (length (accepted d)) = capacity d \<and>
        (\<forall>c sc. (c, sc) \<in> set (accepted d) \<longrightarrow> score sdb \<le> sc)"
      unfolding inv_stable_def by simp
  qed
next
  case (Reject a rest sd i d0 lowest others)
  let ?s0 = "prefs sd ! i"
  have ap: "\<And>b s. applied st' b s \<longleftrightarrow> applied st b s \<or> (b = a \<and> s = ?s0)"
    using applied_advance [of st a sd i st'] Reject by (simp add: update_conv')
  have full: "int (length (accepted d0)) = capacity d0"
    using cap Reject(5,6) unfolding inv_capacity_def by fastforce
  have low: "\<forall>x \<in> set (accepted d0). snd lowest \<le> snd x"
    using sorted_by_score_lowest(2) [OF Reject(7)] .
  show ?thesis
    unfolding inv_stable_def
  proof (intro allI impI)
    fix b s sdb d
    assume b: "applied st' b s" "map_of (student_dict st') b = Some sdb"
      "map_of (schools_dict st') s = Some d"
    show "(b, score sdb) \<in> set (accepted d) \<or>
        int (length (accepted d)) = capacity d \<and>
        (\<forall>c sc. (c, sc) \<in> set (accepted d) \<longrightarrow> score sdb \<le> sc)"
    proof (cases "applied st b s")
      case True
      with stab b Reject show ?thesis
        unfolding inv_stable_def by simp
    next
      case False
      with b ap have eq: "b = a" "s = ?s0" by auto
      then have "sdb = sd" "d = d0" using b Reject by auto
      moreover have "\<forall>c sc. (c, sc) \<in> set (accepted d0) \<longrightarrow> score sd \<le> sc"
        using low Reject(8) by fastforce
      ultimately show ?thesis using full by simp
    qed
  qed
next
  case (Accept a rest sd i d0)
  let ?s0 = "prefs sd ! i"
  let ?d1 = "d0\<lparr>accepted := accepted d0 @ [(a, score sd)]\<rparr>"
  have ap: "\<And>b s. applied st' b s \<longleftrightarrow> applied st b s \<or> (b = a \<and> s = ?s0)"
    using applied_advance [of st a sd i st'] Accept by (simp add: update_conv')
  have sch: "map_of (schools_dict st') = (map_of (schools_dict st))(?s0 \<mapsto> ?d1)"
    using Accept by (simp add: update_conv')
  show ?thesis
    unfolding inv_stable_def
  proof (intro allI impI)
    fix b s sdb d
    assume b: "applied st' b s" "map_of (student_dict st') b = Some sdb"
      "map_of (schools_dict st') s = Some d"
    have sdb: "map_of (student_dict st) b = Some sdb" using b Accept by simp
    show "(b, score sdb) \<in> set (accepted d) \<or>
        int (length (accepted d)) = capacity d \<and>
        (\<forall>c sc. (c, sc) \<in> set (accepted d) \<longrightarrow> score sdb \<le> sc)"
    proof (cases "s = ?s0")
      case True
      then have d: "d = ?d1" using b sch by simp
      show ?thesis
      proof (cases "b = a")
        case True
        then have "sdb = sd" using sdb Accept by simp
        with True d show ?thesis by simp
      next
        case False
        with b ap have "applied st b s" by simp
        with stab sdb Accept(5) True
        have "(b, score sdb) \<in> set (accepted d0) \<or> int (length (accepted d0)) = capacity d0"
          unfolding inv_stable_def by blast
        with Accept(6) d show ?thesis by auto
      qed
    next
      case False
      then have d0: "map_of (schools_dict st) s = Some d" using b sch by simp
      from False b ap have "applied st b s" by simp
      with stab sdb d0 show ?thesis
        unfolding inv_stable_def by blast
    qed
  qed
next
  case (Replace a rest sd i d0 lowest others)
  let ?s0 = "prefs sd ! i"
  let ?d1 = "d0\<lparr>accepted := remove1 lowest (accepted d0) @ [(a, score sd)]\<rparr>"
  have ap: "\<And>b s. applied st' b s \<longleftrightarrow> applied st b s \<or> (b = a \<and> s = ?s0)"
    using applied_advance [of st a sd i st'] Replace by (simp add: update_conv')
  have sch: "map_of (schools_dict st') = (map_of (schools_dict st))(?s0 \<mapsto> ?d1)"
    using Replace by (simp add: update_conv')
  have full: "int (length (accepted d0)) = capacity d0"
    using cap Replace(5,6) unfolding inv_capacity_def by fastforce
  have lowin: "lowest \<in> set (accepted d0)"
    using sorted_by_score_lowest(1) [OF Replace(7)] .
  have low: "\<forall>x \<in> set (accepted d0). snd lowest \<le> snd x"
    using sorted_by_score_lowest(2) [OF Replace(7)] .
  have len: "length (accepted ?d1) = length (accepted d0)"
    using length_replace_lowest [OF lowin, of "(a, score sd)"] by simp
  have mem: "x \<in> set (accepted d0) \<or> x = (a, score sd)" if "x \<in> set (accepted ?d1)" for x
    using that set_remove1_subset [of lowest "accepted d0"] by auto
  have kept: "x \<in> set (accepted ?d1)" if "x \<in> set (accepted d0)" "x \<noteq> lowest" for x
    using that by simp
  show ?thesis
    unfolding inv_stable_def
  proof (intro allI impI)
    fix b s sdb d
    assume b: "applied st' b s" "map_of (student_dict st') b = Some sdb"
      "map_of (schools_dict st') s = Some d"
    have sdb: "map_of (student_dict st) b = Some sdb" using b Replace by simp
    show "(b, score sdb) \<in> set (accepted d) \<or>
        int (length (accepted d)) = capacity d \<and>
        (\<forall>c sc. (c, sc) \<in> set (accepted d) \<longrightarrow> score sdb \<le> sc)"
    proof (cases "s = ?s0")
      case True
      then have d: "d = ?d1" using b sch by simp
      have fulld: "int (length (accepted d)) = capacity d"
        using full len d by simp
      show ?thesis
      proof (cases "b = a")
        case True
        then have "sdb = sd" using sdb Replace by simp
        with True d show ?thesis by simp
      next
        case False
        with b ap have "applied st b s" by simp
        with stab sdb Replace(5) True
        have old: "(b, score sdb) \<in> set (accepted d0) \<or>
            (\<forall>c sc. (c, sc) \<in> set (accepted d0) \<longrightarrow> score sdb \<le> sc)"
          unfolding inv_stable_def by blast
        have "score sdb \<le> snd lowest" if "(b, score sdb) \<notin> set (accepted d)"
        proof -
          from old show ?thesis
          proof
            assume in0: "(b, score sdb) \<in> set (accepted d0)"
            with that kept d have "(b, score sdb) = lowest" by blast
            then show ?thesis by (metis order_refl snd_conv)
          next
            assume "\<forall>c sc. (c, sc) \<in> set (accepted d0) \<longrightarrow> score sdb \<le> sc"
            with lowin show ?thesis by (metis prod.collapse)
          qed
        qed
        moreover have "snd lowest \<le> sc" if "(c, sc) \<in> set (accepted d)" for c sc
        proof -
          from mem that d have "(c, sc) \<in> set (accepted d0) \<or> (c, sc) = (a, score sd)"
            by blast
          then show ?thesis using low Replace(8) by auto
        qed
        ultimately show ?thesis using fulld by force
      qed
    next
      case False
      then have d0: "map_of (schools_dict st) s = Some d" using b sch by simp
      from False b ap have "applied st b s" by simp
      with stab sdb d0 show ?thesis
        unfolding inv_stable_def by blast
    qed
  qed
qed

lemma gs_iter_progress:
  assumes static: "inv_static app st" and q: "inv_queue st" and cap: "inv_capacity st"
    and ne: "unmatched st \<noteq> []"
  shows "\<exists>st'. gs_iter st = Inr st'"
proof -
  from ne obtain a rest where u: "unmatched st = a # rest"
    by (cases "unmatched st") auto
  with q have "a \<in> fst ` set (student_dict st)"
    by (simp add: inv_queue_def)
  then obtain sd where sd: "map_of (student_dict st) a = Some sd"
    by (metis domD dom_map_of_conv_image_fst)
  have "fst ` set (pref_index st) = fst ` set (student_dict st)"
    using static unfolding inv_static_def
    by (metis (no_types, lifting) image_set list.map_comp comp_def fst_conv map_eq_conv)
  with \<open>a \<in> fst ` set (student_dict st)\<close> obtain i where i: "map_of (pref_index st) a = Some i"
    by (metis domD dom_map_of_conv_image_fst)
  have full: "sorted_by_score (accepted d) \<noteq> []"
    if "map_of (schools_dict st) s = Some d" "\<not> int (length (accepted d)) < capacity d" for s d
  proof -
    from cap that have "0 < capacity d" by (simp add: inv_capacity_def)
    with that have "accepted d \<noteq> []" by auto
    then show ?thesis by (metis length_0_conv length_sort sorted_by_score_def)
  qed
  show ?thesis
    using u sd i full
    by (auto simp: gs_iter_def dict_get_def Let_def split: option.splits list.splits)
qed

subsection \<open>Runs of the loop\<close>

lemma gs_init_inv: "well_typed app \<Longrightarrow> gs_inv app (gs_init app)"
  by (simp add: gs_inv_def gs_init_static gs_init_queue gs_init_accepted gs_init_capacity
      gs_init_stable)

lemma gs_iter_inv: "gs_inv app st \<Longrightarrow> gs_iter st = Inr st' \<Longrightarrow> gs_inv app st'"
  by (simp add: gs_inv_def gs_iter_static gs_iter_queue gs_iter_accepted gs_iter_capacity
      gs_iter_stable)

lemma gs_steps_inv: "gs_inv app st \<Longrightarrow> gs_steps n st = Inr st' \<Longrightarrow> gs_inv app st'"
proof (induction n arbitrary: st)
  case 0
  then show ?case by simp
next
  case (Suc n)
  show ?case
  proof (cases "unmatched st = []")
    case True
    with Suc.prems show ?thesis by simp
  next
    case False
    with Suc.prems obtain st1 where st1: "gs_iter st = Inr st1" "gs_steps n st1 = Inr st'"
      by (auto split: sum.splits)
    from Suc.prems(1) st1(1) have "gs_inv app st1" by (rule gs_iter_inv)
    then show ?thesis using st1(2) by (rule Suc.IH)
  qed
qed

lemma gs_loop_inv:
  "gs_inv app st \<Longrightarrow> \<exists>fin. gs_loop st = Inr fin \<and> unmatched fin = [] \<and> gs_inv app fin"
proof (induction st rule: gs_loop.induct)
  case (1 st)
  show ?case
  proof (cases "unmatched st = []")
    case True
    with "1.prems" show ?thesis by (simp add: gs_loop.simps)
  next
    case False
    from "1.prems" have "inv_static app st" "inv_queue st" "inv_capacity st"
      by (simp_all add: gs_inv_def)
    from gs_iter_progress [OF this False] obtain st1 where st1: "gs_iter st = Inr st1"
      by blast
    with "1.prems" have "gs_inv app st1" by (rule gs_iter_inv)
    with "1.IH" [OF False st1] obtain fin where
      "gs_loop st1 = Inr fin" "unmatched fin = []" "gs_inv app fin"
      by blast
    with False st1 show ?thesis
      by (simp add: gs_loop.simps [of st])
  qed
qed

lemma gs_loop_steps: "gs_loop st = gs_steps (gs_pops st) st"
proof (induction st rule: gs_loop.induct)
  case (1 st)
  show ?case
  proof (cases "unmatched st = []")
    case True
    then show ?thesis by (simp add: gs_loop.simps gs_pops.simps)
  next
    case False
    show ?thesis
    proof (cases "gs_iter st")
      case (Inl e)
      with False show ?thesis
        by (simp add: gs_loop.simps [of st] gs_pops.simps [of st])
    next
      case (Inr st1)
      with False "1.IH" [OF False Inr] show ?thesis
        by (simp add: gs_loop.simps [of st] gs_pops.simps [of st])
    qed
  qed
qed

lemma gs_pops_le_measure: "gs_pops st \<le> gs_measure st"
proof (induction st rule: gs_pops.induct)
  case (1 st)
  show ?case
  proof (cases "unmatched st = []")
    case True
    then show ?thesis by (simp add: gs_pops.simps)
  next
    case False
    show ?thesis
    proof (cases "gs_iter st")
      case (Inl e)
      from False have "1 \<le> gs_measure st"
        by (cases "unmatched st") (simp_all add: gs_measure_def)
      with False Inl show ?thesis
        by (simp add: gs_pops.simps [of st])
    next
      case (Inr st1)
      from "1.IH" [OF False Inr] gs_iter_measure [OF Inr] False Inr show ?thesis
        by (simp add: gs_pops.simps [of st])
    qed
  qed
qed

lemma map_of_keyed:
  "distinct (map f xs) \<Longrightarrow> x \<in> set xs \<Longrightarrow> map_of (map (\<lambda>s. (f s, g s)) xs) (f x) = Some (g x)"
  by (induction xs) (auto simp: image_iff)

lemma gs_measure_init:
  assumes "well_typed app"
  shows "gs_measure (gs_init app)
         = (\<Sum>s \<leftarrow> students app. length (preferences s)) + length (students app)"
proof -
  let ?sd = "map (\<lambda>s. (Student.name s, \<lparr>prefs = preferences s, score = Student.score s\<rparr>))
               (students app)"
  have dist: "distinct (map Student.name (students app))"
    using assms by (simp add: well_typed_def)
  have rem: "remaining (gs_init app) (Student.name s) = length (preferences s)"
    if "s \<in> set (students app)" for s
  proof -
    have "map_of ?sd (Student.name s) = Some \<lparr>prefs = preferences s, score = Student.score s\<rparr>"
      using dist that by (rule map_of_keyed)
    moreover have "map_of (map (\<lambda>s. (Student.name s, 0::nat)) (students app)) (Student.name s) = Some 0"
      using dist that by (rule map_of_keyed)
    ultimately show ?thesis
      using assms by (simp add: remaining_def gs_init_well_typed)
  qed
  have "(\<Sum>k \<in> fst ` set ?sd. remaining (gs_init app) k)
        = (\<Sum>k \<in> set (map Student.name (students app)). remaining (gs_init app) k)"
    by (simp add: image_image)
  also have "\<dots> = (\<Sum>k \<leftarrow> map Student.name (students app). remaining (gs_init app) k)"
    using dist by (simp add: sum.distinct_set_conv_list del: set_map)
  also have "\<dots> = (\<Sum>s \<leftarrow> students app. length (preferences s))"
    using rem by (simp add: comp_def cong: map_cong)
  finally show ?thesis
    using assms by (simp add: gs_measure_def gs_init_well_typed)
qed

lemma gs_iter_absent:
  assumes "gs_iter st = Inr st'" and "absent a st"
  shows "absent a st'"
  using assms(1)
proof (cases rule: gs_iter_cases)
  case (Discard b rest sd i)
  with assms(2) show ?thesis by (auto simp: absent_def)
next
  case (Unknown b rest sd i)
  with assms(2) show ?thesis by (auto simp: absent_def)
next
  case (Accept b rest sd i d)
  with assms(2) show ?thesis
    by (auto simp: absent_def update_conv' split: if_splits)
next
  case (Replace b rest sd i d lowest others)
  have "lowest \<in> set (accepted d)"
    using sorted_by_score_lowest(1) [OF Replace(7)] .
  then have "fst lowest \<in> fst ` set (accepted d)" by simp
  with assms(2) Replace(5) have "fst lowest \<noteq> a"
    by (auto simp: absent_def)
  moreover have "a \<notin> fst ` set (remove1 lowest (accepted d))"
    using assms(2) Replace(5) set_remove1_subset [of lowest "accepted d"]
    by (auto simp: absent_def)
  ultimately show ?thesis
    using assms(2) Replace
    by (auto simp: absent_def update_conv' split: if_splits)
next
  case (Reject b rest sd i d lowest others)
  with assms(2) show ?thesis by (auto simp: absent_def)
qed

lemma gs_steps_absent:
  "absent a st \<Longrightarrow> gs_steps n st = Inr st' \<Longrightarrow> absent a st'"
proof (induction n arbitrary: st)
  case 0
  then show ?case by simp
next
  case (Suc n)
  show ?case
  proof (cases "unmatched st = []")
    case True
    with Suc.prems show ?thesis by simp
  next
    case False
    with Suc.prems obtain st1 where st1: "gs_iter st = Inr st1" "gs_steps n st1 = Inr st'"
      by (auto split: sum.splits)
    from st1(1) Suc.prems(1) have "absent a st1" by (rule gs_iter_absent)
    then show ?thesis using st1(2) by (rule Suc.IH)
  qed
qed

lemma well_typed_scenario1: "well_typed scenario1"
  by (simp add: well_typed_def scenario1_def)

lemma well_typed_scenario2: "well_typed scenario2"
  by (simp add: well_typed_def scenario2_def)

lemma well_typed_scenario3: "well_typed scenario3"
  by (simp add: well_typed_def scenario3_def)

lemma applied_student:
  assumes "inv_static app st" and "applied st a s"
  shows "\<exists>stu \<in> set (students app). Student.name stu = a \<and> s \<in> set (preferences stu)"
proof -
  from assms(2) obtain sd c where sd: "map_of (student_dict st) a = Some sd"
    and s: "s \<in> set (take c (prefs sd))"
    by (auto simp: applied_def split: option.splits)
  from sd assms(1) have "(a, sd) \<in> set (map (\<lambda>s. (Student.name s,
          \<lparr>prefs = preferences s, score = Student.score s\<rparr>)) (students app))"
    by (auto simp: inv_static_def dest: map_of_SomeD)
  then obtain stu where "stu \<in> set (students app)" "Student.name stu = a"
    "sd = \<lparr>prefs = preferences stu, score = Student.score stu\<rparr>"
    by auto
  moreover from s have "s \<in> set (prefs sd)"
    by (rule in_set_takeD)
  ultimately show ?thesis by auto
qed

lemma format_results_distinct:
  assumes "distinct (map fst sdict)"
  shows "format_results sdict
         = map (\<lambda>(school, data). (school, map fst (sorted_by_score_reverse (accepted data)))) sdict"
proof -
  have "map fst (map (\<lambda>(school, data). (school, map fst (sorted_by_score_reverse (accepted data)))) sdict)
        = map fst sdict"
    by (induction sdict) auto
  with assms have "distinct (map fst (map (\<lambda>(school, data).
      (school, map fst (sorted_by_score_reverse (accepted data)))) sdict))"
    by (simp only:)
  then show ?thesis
    unfolding format_results_def by (rule dict_of_distinct)
qed

lemma map_of_format_results:
  assumes "distinct (map fst sdict)" and "map_of sdict s = Some d"
  shows "map_of (format_results sdict) s = Some (map fst (sorted_by_score_reverse (accepted d)))"
proof -
  have "map_of (map (\<lambda>(school, data). (school, map fst (sorted_by_score_reverse (accepted data)))) sdict) s
        = Some (map fst (sorted_by_score_reverse (accepted d)))"
    using assms(2) by (induction sdict) (auto split: if_splits)
  with assms(1) show ?thesis
    by (simp add: format_results_distinct)
qed

lemma map_fst_format_results:
  assumes "distinct (map fst sdict)"
  shows "map fst (format_results sdict) = map fst sdict"
proof -
  have "map fst (map (\<lambda>(school, data). (school, map fst (sorted_by_score_reverse (accepted data)))) sdict)
        = map fst sdict"
    by (induction sdict) auto
  with assms show ?thesis
    by (simp add: format_results_distinct)
qed

lemma well_typed_scenario_order: "well_typed scenario_order"
  by (simp add: well_typed_def scenario_order_def)

lemma well_typed_scenario_listed: "well_typed scenario_listed"
  by (simp add: well_typed_def scenario_listed_def)

lemma sorted_by_score_reverse_props:
  "set (sorted_by_score_reverse xs) = set xs"
  "length (sorted_by_score_reverse xs) = length xs"
  "sorted (rev (map snd (sorted_by_score_reverse xs)))"
  "filter (\<lambda>x. snd x = k) (sorted_by_score_reverse xs) = filter (\<lambda>x. snd x = k) xs"
proof -
  show "set (sorted_by_score_reverse xs) = set xs"
    by (simp add: sorted_by_score_reverse_def)
  show "length (sorted_by_score_reverse xs) = length xs"
    by (simp add: sorted_by_score_reverse_def)
  have "rev (map snd (sorted_by_score_reverse xs)) = map snd (sort_key snd (rev xs))"
    by (simp add: sorted_by_score_reverse_def rev_map)
  then show "sorted (rev (map snd (sorted_by_score_reverse xs)))"
    by (simp only: sorted_sort_key)
  have "filter (\<lambda>x. snd x = k) (sorted_by_score_reverse xs)
        = rev (filter (\<lambda>x. snd x = k) (sort_key snd (rev xs)))"
    by (simp add: sorted_by_score_reverse_def rev_filter)
  also have "\<dots> = rev (filter (\<lambda>x. snd x = k) (rev xs))"
    by (simp only: sort_key_stable)
  also have "\<dots> = filter (\<lambda>x. snd x = k) xs"
    by (simp add: rev_filter)
  finally show "filter (\<lambda>x. snd x = k) (sorted_by_score_reverse xs) = filter (\<lambda>x. snd x = k) xs" .
qed

lemma sorted_by_score_first:
  assumes "sorted_by_score xs = lowest # others"
  shows "snd lowest = Min (snd ` set xs)"
    and "lowest = hd (filter (\<lambda>x. snd x = Min (snd ` set xs)) xs)"
proof -
  have "lowest \<in> set xs" and le: "\<forall>x \<in> set xs. snd lowest \<le> snd x"
    using sorted_by_score_lowest [OF assms] by blast+
  then show m: "snd lowest = Min (snd ` set xs)"
    by (intro Min_eqI [symmetric]) auto
  have "filter (\<lambda>x. snd x = snd lowest) xs
        = filter (\<lambda>x. snd x = snd lowest) (sort_key snd xs)"
    by (simp add: sort_key_stable)
  also have "\<dots> = lowest # filter (\<lambda>x. snd x = snd lowest) others"
    using assms by (simp add: sorted_by_score_def)
  finally show "lowest = hd (filter (\<lambda>x. snd x = Min (snd ` set xs)) xs)"
    by (simp add: m [symmetric])
qed

subsection \<open>The animation refines the loop\<close>

lemma drive_session_refines:
  "map_sum id gs_state.truncate (drive_session st) = gs_loop (gs_state.truncate st)"
proof (induction st rule: drive_session.induct)
  case (1 st)
  show ?case
  proof (cases "unmatched st = []")
    case True
    then show ?thesis
      by (simp add: drive_session.simps [of st] gs_loop.simps [of "gs_state.truncate st"])
  next
    case False
    note ref = animation_step_refines [OF False]
    show ?thesis
    proof (cases "animation_step st")
      case (Inl e)
      with ref have "gs_iter (gs_state.truncate st) = Inl e" by simp
      with False Inl show ?thesis
        by (simp add: drive_session.simps [of st] gs_loop.simps [of "gs_state.truncate st"])
    next
      case (Inr st')
      with ref have "gs_iter (gs_state.truncate st) = Inr (gs_state.truncate st')" by simp
      with False Inr "1.IH" [OF False Inr] show ?thesis
        by (simp add: drive_session.simps [of st] gs_loop.simps [of "gs_state.truncate st"])
    qed
  qed
qed

lemma truncate_animation_reset: "gs_state.truncate (animation_reset app st0) = gs_init app"
  by (simp add: gs_state.truncate_def animation_reset_def gs_init_def)

subsection \<open>The arithmetic and the adjusted list\<close>

lemma round_half_even_of_int [simp]: "round_half_even (of_int n) = n"
  by (simp add: round_half_even_def)

lemma binary64_round_exact:
  assumes m: "\<bar>m\<bar> < 2 ^ 53" and q: "- 1074 \<le> q"
  shows "binary64_round (of_int m * 2 powi q) = of_int m * 2 powi q"
proof (cases "m = 0")
  case True
  then show ?thesis by (simp add: binary64_round_def)
next
  case False
  define x :: real where "x = of_int m * 2 powi q"
  define q' where "q' = max \<lfloor>log 2 \<bar>x\<bar>\<rfloor> (- 1022) - 52"
  have pos: "0 < \<bar>x\<bar>"
    using False by (simp add: x_def)
  have "\<bar>x\<bar> = \<bar>of_int m\<bar> * 2 powi q"
    by (simp add: x_def abs_mult)
  also have "\<dots> < 2 ^ 53 * 2 powi q"
  proof -
    have "\<bar>real_of_int m\<bar> < 2 ^ 53"
      using m by (metis of_int_abs of_int_less_numeral_power_cancel_iff)
    then show ?thesis
      by (simp add: mult_strict_right_mono)
  qed
  also have "\<dots> = 2 powi (53 + q)"
    by (simp add: power_int_add)
  also have "\<dots> = 2 powr of_int (53 + q)"
    by (rule powr_real_of_int' [symmetric]) simp_all
  finally have "log 2 \<bar>x\<bar> < of_int (53 + q)"
    using pos by (simp add: log_less_iff)
  then have "\<lfloor>log 2 \<bar>x\<bar>\<rfloor> < 53 + q"
    by (simp add: floor_less_iff)
  with q have le: "q' \<le> q"
    by (simp add: q'_def)
  define k where "k = nat (q - q')"
  have split: "(2::real) powi q = 2 ^ k * 2 powi q'"
  proof -
    have "q = int k + q'"
      using le by (simp add: k_def)
    then have "(2::real) powi q = 2 powi (int k + q')"
      by simp
    also have "\<dots> = 2 powi int k * 2 powi q'"
      by (simp add: power_int_add)
    finally show ?thesis by simp
  qed
  have "x / 2 powi q' = of_int (m * 2 ^ k)"
    by (simp add: x_def split)
  then have "round_half_even (x / 2 powi q') = m * 2 ^ k"
    by (simp only: round_half_even_of_int)
  moreover have "x \<noteq> 0"
    using pos by simp
  ultimately have "binary64_round x = of_int (m * 2 ^ k) * 2 powi q'"
    by (simp add: binary64_round_def Let_def q'_def)
  also have "\<dots> = x"
    by (simp add: x_def split)
  finally show ?thesis
    by (simp add: x_def)
qed

lemma binary64_round_of_int:
  "\<bar>m\<bar> < 2 ^ 53 \<Longrightarrow> binary64_round (of_int m) = of_int m"
  using binary64_round_exact [of m 0] by simp

lemma adjusted_score_one:
  assumes "\<bar>sc\<bar> < 2 ^ 53"
  shows "adjusted_score sc 1 = Inr sc"
proof -
  have r: "binary64_round (of_int sc) = of_int sc"
    using assms by (rule binary64_round_of_int)
  have "\<bar>real_of_int sc\<bar> < 2 ^ 53"
    using assms by (metis of_int_abs of_int_less_numeral_power_cancel_iff)
  also have "(2::real) ^ 53 \<le> 2 ^ 1024"
    by simp
  finally have small: "\<not> 2 ^ 1024 \<le> \<bar>real_of_int sc\<bar>"
    by simp
  show ?thesis
    using small by (simp add: adjusted_score_def py_float_def float_mul_def py_int_def r)
qed

lemma binary64_round_big: "binary64_round 9007199254740993 = 9007199254740992"
proof -
  have "\<lfloor>log 2 \<bar>9007199254740993 :: real\<bar>\<rfloor> = 53"
    by (subst floor_log_eq_powr_iff) simp_all
  then show ?thesis
    by (simp add: binary64_round_def round_half_even_def)
qed

lemma adjusted_score_trunc:
  assumes "adjusted_score sc factor = Inr r"
  shows "\<exists>y x. py_float sc = Inr y \<and> float_mul y factor = Some x \<and>
           r = (if 0 \<le> x then \<lfloor>x\<rfloor> else \<lceil>x\<rceil>)"
  using assms
  by (auto simp: adjusted_score_def py_int_def split: sum.splits option.splits)

lemma adjusted_students_props:
  "adjusted_students ss factor = Inr adjusted \<Longrightarrow>
     map Student.name adjusted = map Student.name ss \<and>
     map preferences adjusted = map preferences ss \<and>
     length adjusted = length ss \<and>
     (\<forall>k < length ss. adjusted_score (Student.score (ss ! k)) factor
            = Inr (Student.score (adjusted ! k)))"
proof (induction ss arbitrary: adjusted)
  case Nil
  then show ?case by simp
next
  case (Cons s ss)
  from Cons.prems obtain sc rest where sc: "adjusted_score (Student.score s) factor = Inr sc"
    and rest: "adjusted_students ss factor = Inr rest"
    and adj: "adjusted = \<lparr>Student.name = Student.name s, preferences = preferences s, score = sc\<rparr> # rest"
    by (auto split: sum.splits)
  note IH = Cons.IH [OF rest]
  have "adjusted_score (Student.score ((s # ss) ! k)) factor = Inr (Student.score (adjusted ! k))"
    if "k < length (s # ss)" for k
    using that IH sc adj by (cases k) auto
  with IH adj show ?case
    by simp
qed

lemma adjusted_students_one:
  assumes "\<forall>s \<in> set ss. \<bar>Student.score s\<bar> < 2 ^ 53"
  shows "adjusted_students ss 1 = Inr ss"
  using assms by (induction ss) (simp_all add: adjusted_score_one)

lemma count_matching_changes_same: "count_matching_changes m m = 0"
  by (simp add: count_matching_changes_def)

lemma factor_one_exact_scores:
  assumes "\<forall>s \<in> set (students self). \<bar>Student.score s\<bar> < 2 ^ 53"
    and "gale_shapley_matching self = Inr baseline"
  shows "run_adjusted_matching self 1 = (Inr baseline, self)"
    and "count_matching_changes baseline baseline = 0"
  using assms
  by (simp_all add: run_adjusted_matching_def adjusted_students_one count_matching_changes_same)

lemma adjusted_score_negative: "adjusted_score (- 3) (1 / 2) = Inr (- 1)"
proof -
  have a: "binary64_round (- 3) = - 3"
    using binary64_round_exact [of "- 3" 0] by simp
  have b: "binary64_round (- (3 / 2)) = - (3 / 2)"
    using binary64_round_exact [of "- 3" "- 1"] by (simp add: power_int_minus)
  show ?thesis
    by (simp add: adjusted_score_def py_float_def float_mul_def py_int_def a b)
qed

lemma adjusted_score_big:
  "adjusted_score 9007199254740992 1 = Inr 9007199254740992"
  "adjusted_score 9007199254740993 1 = Inr 9007199254740992"
proof -
  have a: "binary64_round 9007199254740992 = 9007199254740992"
    using binary64_round_exact [of 4503599627370496 1] by simp
  show "adjusted_score 9007199254740992 1 = Inr 9007199254740992"
    by (simp add: adjusted_score_def py_float_def float_mul_def py_int_def a)
  show "adjusted_score 9007199254740993 1 = Inr 9007199254740992"
    by (simp add: adjusted_score_def py_float_def float_mul_def py_int_def a binary64_round_big)
qed

lemma well_typed_scenario_big: "well_typed scenario_big"
  by (simp add: well_typed_def scenario_big_def)

section \<open>The claims\<close>

text \<open>
  Claim C1 (equivalence of the session and the engine), as amended. Pressing the step
  button from the reset state until the queue is empty ends as the loop of
  \<^verbatim>\<open>gale_shapley_matching\<close> ends on the same input: with the same exception, or in a
  state with the same four variables, so with the same accepted lists, pair by pair in
  the order of admission. For a well-typed input both end without an exception, the
  session with an empty queue, and the allocation that the function returns has the
  keys of the session's dictionary and under each key the names of the session's
  accepted list in another order: descending by score, equal scores in the order of
  admission. The session itself never sorts its lists: with A (score 50) and B
  (score 90) admitted in this order to a school with two places, the session ends
  with A before B and the function returns B before A.
\<close>

theorem session_equivalence:
  "map_sum id gs_state.truncate (drive_session (animation_reset app st0)) = gs_loop (gs_init app) \<and>
   (well_typed app \<longrightarrow>
     (\<exists>fin alloc. drive_session (animation_reset app st0) = Inr fin \<and> unmatched fin = [] \<and>
        gs_loop (gs_init app) = Inr (gs_state.truncate fin) \<and>
        gale_shapley_matching app = Inr alloc \<and>
        map fst alloc = map fst (schools_dict fin) \<and>
        (\<forall>s d. map_of (schools_dict fin) s = Some d \<longrightarrow>
           (\<exists>sorted_pairs. map_of alloc s = Some (map fst sorted_pairs) \<and>
              set sorted_pairs = set (accepted d) \<and>
              length sorted_pairs = length (accepted d) \<and>
              sorted (rev (map snd sorted_pairs)) \<and>
              (\<forall>k. filter (\<lambda>x. snd x = k) sorted_pairs
                     = filter (\<lambda>x. snd x = k) (accepted d))))))"
proof -
  have ref: "map_sum id gs_state.truncate (drive_session (animation_reset app st0))
             = gs_loop (gs_init app)"
    using drive_session_refines [of "animation_reset app st0"]
    by (simp add: truncate_animation_reset)
  moreover have "\<exists>fin alloc. drive_session (animation_reset app st0) = Inr fin \<and> unmatched fin = [] \<and>
        gs_loop (gs_init app) = Inr (gs_state.truncate fin) \<and>
        gale_shapley_matching app = Inr alloc \<and>
        map fst alloc = map fst (schools_dict fin) \<and>
        (\<forall>s d. map_of (schools_dict fin) s = Some d \<longrightarrow>
           (\<exists>sorted_pairs. map_of alloc s = Some (map fst sorted_pairs) \<and>
              set sorted_pairs = set (accepted d) \<and>
              length sorted_pairs = length (accepted d) \<and>
              sorted (rev (map snd sorted_pairs)) \<and>
              (\<forall>k. filter (\<lambda>x. snd x = k) sorted_pairs
                     = filter (\<lambda>x. snd x = k) (accepted d))))"
    if wt: "well_typed app"
  proof -
    from gs_loop_inv [OF gs_init_inv [OF wt]] obtain g where
      g: "gs_loop (gs_init app) = Inr g" "unmatched g = []" "gs_inv app g"
      by blast
    with ref obtain fin where fin: "drive_session (animation_reset app st0) = Inr fin"
      "gs_state.truncate fin = g"
      by (cases "drive_session (animation_reset app st0)") auto
    from fin(2) g(2) have empty: "unmatched fin = []"
      by (metis truncate_simps(3))
    have sch: "schools_dict g = schools_dict fin"
      using fin(2) by (metis truncate_simps(2))
    let ?alloc = "format_results (schools_dict fin)"
    have run: "gale_shapley_matching app = Inr ?alloc"
      using g(1) sch by (simp add: gale_shapley_matching_def)
    have "map fst (schools_dict fin) = map fst (schools app)"
      using g(3) sch by (simp add: gs_inv_def inv_static_def)
    then have dist: "distinct (map fst (schools_dict fin))"
      using wt by (simp add: well_typed_def)
    have keys: "map fst ?alloc = map fst (schools_dict fin)"
      using dist by (rule map_fst_format_results)
    have each: "\<exists>sorted_pairs. map_of ?alloc s = Some (map fst sorted_pairs) \<and>
              set sorted_pairs = set (accepted d) \<and>
              length sorted_pairs = length (accepted d) \<and>
              sorted (rev (map snd sorted_pairs)) \<and>
              (\<forall>k. filter (\<lambda>x. snd x = k) sorted_pairs
                     = filter (\<lambda>x. snd x = k) (accepted d))"
      if "map_of (schools_dict fin) s = Some d" for s d
      using map_of_format_results [OF dist that] sorted_by_score_reverse_props [where xs = "accepted d"]
      by (intro exI [of _ "sorted_by_score_reverse (accepted d)"]) simp
    from fin(1) empty g(1) fin(2) run keys each show ?thesis
      by blast
  qed
  ultimately show ?thesis by blast
qed

theorem session_equivalence_counterexample:
  "\<not> (\<exists>fin. drive_session (animation_reset scenario_order animation_initial) = Inr fin \<and>
         gale_shapley_matching scenario_order
           = Inr (map (\<lambda>(s, d). (s, map fst (accepted d))) (schools_dict fin)))"
proof
  assume "\<exists>fin. drive_session (animation_reset scenario_order animation_initial) = Inr fin \<and>
         gale_shapley_matching scenario_order
           = Inr (map (\<lambda>(s, d). (s, map fst (accepted d))) (schools_dict fin))"
  then obtain fin where fin: "drive_session (animation_reset scenario_order animation_initial) = Inr fin"
    and same: "gale_shapley_matching scenario_order
           = Inr (map (\<lambda>(s, d). (s, map fst (accepted d))) (schools_dict fin))"
    by blast
  have "map_sum id schools_dict (drive_session (animation_reset scenario_order animation_initial))
        = Inr [(''X'', \<lparr>capacity = 2, accepted = [(''A'', 50), (''B'', 90)]\<rparr>)]"
    by code_simp
  with fin have session: "schools_dict fin = [(''X'', \<lparr>capacity = 2, accepted = [(''A'', 50), (''B'', 90)]\<rparr>)]"
    by simp
  have engine: "gale_shapley_matching scenario_order = Inr [(''X'', [''B'', ''A''])]"
    by code_simp
  from same show False
    unfolding session engine by simp
qed

theorem session_equivalence_witness:
  "well_typed scenario_order \<and>
   (\<exists>fin. drive_session (animation_reset scenario_order animation_initial) = Inr fin \<and>
      unmatched fin = [] \<and>
      gs_loop (gs_init scenario_order) = Inr (gs_state.truncate fin) \<and>
      schools_dict fin = [(''X'', \<lparr>capacity = 2, accepted = [(''A'', 50), (''B'', 90)]\<rparr>)] \<and>
      gale_shapley_matching scenario_order = Inr [(''X'', [''B'', ''A''])])"
proof -
  have run: "gale_shapley_matching scenario_order = Inr [(''X'', [''B'', ''A''])]"
    by code_simp
  from session_equivalence [of scenario_order animation_initial] well_typed_scenario_order
  obtain fin where fin: "drive_session (animation_reset scenario_order animation_initial) = Inr fin"
    "unmatched fin = []" "gs_loop (gs_init scenario_order) = Inr (gs_state.truncate fin)"
    by blast
  have "map_sum id schools_dict (drive_session (animation_reset scenario_order animation_initial))
        = Inr [(''X'', \<lparr>capacity = 2, accepted = [(''A'', 50), (''B'', 90)]\<rparr>)]"
    by code_simp
  with fin(1) have "schools_dict fin = [(''X'', \<lparr>capacity = 2, accepted = [(''A'', 50), (''B'', 90)]\<rparr>)]"
    by simp
  with well_typed_scenario_order run fin show ?thesis
    by blast
qed

text \<open>
  Claim C2 (capacity invariant). For a well-typed input, in every state that the loop
  reaches after any number of iterations, and in the state the loop ends in, the
  accepted list of every school is no longer than the capacity that the input gave
  the school.
\<close>

theorem capacity_invariant:
  assumes "well_typed app"
  shows "(\<forall>n st s d. gs_steps n (gs_init app) = Inr st \<and> map_of (schools_dict st) s = Some d \<longrightarrow>
            (\<exists>school. map_of (schools app) s = Some school \<and>
               int (length (accepted d)) \<le> School.capacity school)) \<and>
         (\<exists>fin. gs_loop (gs_init app) = Inr fin \<and>
            (\<forall>s d. map_of (schools_dict fin) s = Some d \<longrightarrow>
              (\<exists>school. map_of (schools app) s = Some school \<and>
                 int (length (accepted d)) \<le> School.capacity school)))"
proof -
  have ok: "\<exists>school. map_of (schools app) s = Some school \<and>
               int (length (accepted d)) \<le> School.capacity school"
    if "gs_inv app st" "map_of (schools_dict st) s = Some d" for st s d
  proof -
    from that have "\<exists>school. map_of (schools app) s = Some school \<and> capacity d = School.capacity school"
      by (simp add: gs_inv_def inv_static_def)
    moreover from that have "int (length (accepted d)) \<le> capacity d"
      by (simp add: gs_inv_def inv_capacity_def)
    ultimately show ?thesis by auto
  qed
  have init: "gs_inv app (gs_init app)"
    using assms by (rule gs_init_inv)
  have "\<exists>school. map_of (schools app) s = Some school \<and>
               int (length (accepted d)) \<le> School.capacity school"
    if "gs_steps n (gs_init app) = Inr st" "map_of (schools_dict st) s = Some d" for n st s d
    using ok [OF gs_steps_inv [OF init that(1)] that(2)] .
  moreover from gs_loop_inv [OF init] obtain fin where
    "gs_loop (gs_init app) = Inr fin" "gs_inv app fin" by blast
  ultimately show ?thesis
    using ok by blast
qed

theorem capacity_invariant_witness:
  "well_typed scenario2 \<and>
   (\<exists>st d school. gs_steps 2 (gs_init scenario2) = Inr st \<and>
      map_of (schools_dict st) ''X'' = Some d \<and> accepted d = [(''B'', 90)] \<and>
      map_of (schools scenario2) ''X'' = Some school \<and> School.capacity school = 1 \<and>
      int (length (accepted d)) \<le> School.capacity school)"
proof -
  have steps: "gs_steps 2 (gs_init scenario2) =
      Inr \<lparr>student_dict = [(''A'', \<lparr>prefs = [''X''], score = 70\<rparr>), (''B'', \<lparr>prefs = [''X''], score = 90\<rparr>)],
           schools_dict = [(''X'', \<lparr>capacity = 1, accepted = [(''B'', 90)]\<rparr>)],
           unmatched = [''A''],
           pref_index = [(''A'', 1), (''B'', 1)]\<rparr>"
    by code_simp
  have sch: "map_of (schools scenario2) ''X'' = Some \<lparr>School.name = ''X'', capacity = 1, accepted = []\<rparr>"
    by (simp add: scenario2_def)
  from capacity_invariant [OF well_typed_scenario2] steps sch
  show ?thesis
    using well_typed_scenario2 by auto
qed




text \<open>
  Claim C4 (termination bound), as amended. For a well-typed input the loop ends with an
  empty queue, and the number of pops is at most the sum of the lengths of all
  preference lists plus the number of applicants: besides the pops that consume a
  preference, every applicant can be popped once more, with its list exhausted, to
  be discarded. The bound without the number of applicants fails in scenario 2 of
  the specification: three pops for two preferences.
\<close>

theorem pops_bound:
  assumes "well_typed app"
  shows "(\<exists>fin. gs_loop (gs_init app) = Inr fin \<and> unmatched fin = []) \<and>
         gs_pops (gs_init app)
           \<le> (\<Sum>s \<leftarrow> students app. length (preferences s)) + length (students app)"
proof -
  from gs_loop_inv [OF gs_init_inv [OF assms]]
  have "\<exists>fin. gs_loop (gs_init app) = Inr fin \<and> unmatched fin = []"
    by blast
  moreover have "gs_pops (gs_init app) \<le> gs_measure (gs_init app)"
    by (rule gs_pops_le_measure)
  ultimately show ?thesis
    using gs_measure_init [OF assms] by simp
qed

theorem pops_bound_witness:
  "well_typed scenario2 \<and> gs_pops (gs_init scenario2) = 3 \<and>
   (\<Sum>s \<leftarrow> students scenario2. length (preferences s)) + length (students scenario2) = 4 \<and>
   (\<exists>fin. gs_loop (gs_init scenario2) = Inr fin \<and> unmatched fin = [])"
proof -
  have "gs_pops (gs_init scenario2) = 3"
    by code_simp
  moreover have "(\<Sum>s \<leftarrow> students scenario2. length (preferences s)) + length (students scenario2) = 4"
    by (simp add: scenario2_def)
  ultimately show ?thesis
    using pops_bound [OF well_typed_scenario2] well_typed_scenario2 by simp
qed

theorem pops_bound_counterexample:
  "\<not> gs_pops (gs_init scenario2) \<le> (\<Sum>s \<leftarrow> students scenario2. length (preferences s))"
proof -
  have "gs_pops (gs_init scenario2) = 3"
    by code_simp
  moreover have "(\<Sum>s \<leftarrow> students scenario2. length (preferences s)) = 2"
    by (simp add: scenario2_def)
  ultimately show ?thesis by simp
qed

text \<open>
  Claim C5 (stability). For a well-typed input, let the loop end in \<open>fin\<close> and let
  school \<open>s\<close> be full there. An applicant has applied to \<open>s\<close> during the run exactly
  when \<open>s\<close> stands in its preference list before its final cursor; if such an
  applicant is not in the final accepted list of \<open>s\<close> (it was rejected or evicted
  there), then every applicant admitted to \<open>s\<close> has a score at least as high.
\<close>

theorem final_stability:
  assumes "well_typed app" and "gs_loop (gs_init app) = Inr fin"
    and "map_of (schools_dict fin) s = Some d"
    and "int (length (accepted d)) = capacity d"
    and "(b, sb) \<in> set (accepted d)"
    and "stu \<in> set (students app)"
    and "applied fin (Student.name stu) s"
    and "Student.name stu \<notin> fst ` set (accepted d)"
  shows "Student.score stu \<le> sb"
proof -
  from gs_loop_inv [OF gs_init_inv [OF assms(1)]] assms(2) have inv: "gs_inv app fin"
    by auto
  then have sd: "student_dict fin = map (\<lambda>s. (Student.name s,
          \<lparr>prefs = preferences s, score = Student.score s\<rparr>)) (students app)"
    by (simp add: gs_inv_def inv_static_def)
  have "distinct (map Student.name (students app))"
    using assms(1) by (simp add: well_typed_def)
  from map_of_keyed [OF this assms(6)]
  have look: "map_of (student_dict fin) (Student.name stu)
      = Some \<lparr>prefs = preferences stu, score = Student.score stu\<rparr>"
    by (simp add: sd)
  from inv have "inv_stable fin" by (simp add: gs_inv_def)
  with assms(7) look assms(3)
  have "(Student.name stu, Student.score stu) \<in> set (accepted d) \<or>
        (\<forall>c sc. (c, sc) \<in> set (accepted d) \<longrightarrow> Student.score stu \<le> sc)"
    unfolding inv_stable_def by fastforce
  moreover have "(Student.name stu, Student.score stu) \<notin> set (accepted d)"
    using assms(8) by (force simp: image_iff)
  ultimately show ?thesis
    using assms(5) by blast
qed

theorem final_stability_witness:
  "well_typed scenario2 \<and>
   (\<exists>fin d. gs_loop (gs_init scenario2) = Inr fin \<and>
      map_of (schools_dict fin) ''X'' = Some d \<and>
      int (length (accepted d)) = capacity d \<and>
      (''B'', 90) \<in> set (accepted d) \<and>
      hd (students scenario2) \<in> set (students scenario2) \<and>
      Student.name (hd (students scenario2)) = ''A'' \<and>
      applied fin ''A'' ''X'' \<and>
      ''A'' \<notin> fst ` set (accepted d) \<and>
      Student.score (hd (students scenario2)) \<le> 90)"
proof -
  let ?fin = "\<lparr>student_dict = [(''A'', \<lparr>prefs = [''X''], score = 70\<rparr>), (''B'', \<lparr>prefs = [''X''], score = 90\<rparr>)],
           schools_dict = [(''X'', \<lparr>capacity = 1, accepted = [(''B'', 90)]\<rparr>)],
           unmatched = [],
           pref_index = [(''A'', 1), (''B'', 1)]\<rparr>"
  let ?d = "\<lparr>capacity = 1, accepted = [(''B'', 90)]\<rparr>"
  have loop: "gs_loop (gs_init scenario2) = Inr ?fin"
    by code_simp
  have d: "map_of (schools_dict ?fin) ''X'' = Some ?d"
    by simp
  have full: "int (length (accepted ?d)) = capacity ?d"
    by simp
  have b: "(''B'', 90) \<in> set (accepted ?d)"
    by simp
  have stu: "hd (students scenario2) \<in> set (students scenario2)"
    by (simp add: scenario2_def)
  have nm: "Student.name (hd (students scenario2)) = ''A''"
    by (simp add: scenario2_def)
  have ap: "applied ?fin ''A'' ''X''"
    by (simp add: applied_def)
  have notin: "''A'' \<notin> fst ` set (accepted ?d)"
    by simp
  from final_stability [OF well_typed_scenario2 loop d full b stu, unfolded nm, OF ap notin]
  have "Student.score (hd (students scenario2)) \<le> 90" .
  with well_typed_scenario2 loop d full b stu nm ap notin show ?thesis
    by blast
qed

text \<open>
  Claim C6 (eviction rule). In a run on a well-typed input, let the popped applicant
  apply to a known school whose accepted list is at capacity. The member with the
  minimum score that stands first in the accepted list is the one compared with:
  if the applicant's score is strictly greater, that member is removed, the applicant
  is appended, and the evicted name goes to the tail of the queue with its cursor
  unchanged; otherwise the applicant itself goes to the tail. In scenario 2 of the
  specification A is admitted first, B evicts A, A is then discarded, and the
  allocation is X with B alone.
\<close>

theorem eviction_rule:
  "(\<forall>app n st a rest sd i d.
      well_typed app \<and> gs_steps n (gs_init app) = Inr st \<and> unmatched st = a # rest \<and>
      map_of (student_dict st) a = Some sd \<and> map_of (pref_index st) a = Some i \<and>
      i < length (prefs sd) \<and> map_of (schools_dict st) (prefs sd ! i) = Some d \<and>
      \<not> int (length (accepted d)) < capacity d \<longrightarrow>
      (\<exists>low. low \<in> set (accepted d) \<and> snd low = Min (snd ` set (accepted d)) \<and>
         low = hd (filter (\<lambda>x. snd x = Min (snd ` set (accepted d))) (accepted d)) \<and>
         (if snd low < score sd
          then gs_iter st =
                 Inr (st\<lparr>schools_dict := AList.update (prefs sd ! i)
                            (d\<lparr>accepted := remove1 low (accepted d) @ [(a, score sd)]\<rparr>)
                            (schools_dict st),
                         unmatched := rest @ [fst low],
                         pref_index := AList.update a (i + 1) (pref_index st)\<rparr>) \<and>
               fst low \<notin> fst ` set (remove1 low (accepted d) @ [(a, score sd)]) \<and>
               map_of (AList.update a (i + 1) (pref_index st)) (fst low)
                 = map_of (pref_index st) (fst low)
          else gs_iter st =
                 Inr (st\<lparr>unmatched := rest @ [a],
                         pref_index := AList.update a (i + 1) (pref_index st)\<rparr>)))) \<and>
   gs_steps 1 (gs_init scenario2) =
     Inr \<lparr>student_dict = [(''A'', \<lparr>prefs = [''X''], score = 70\<rparr>), (''B'', \<lparr>prefs = [''X''], score = 90\<rparr>)],
          schools_dict = [(''X'', \<lparr>capacity = 1, accepted = [(''A'', 70)]\<rparr>)],
          unmatched = [''B''],
          pref_index = [(''A'', 1), (''B'', 0)]\<rparr> \<and>
   gs_steps 2 (gs_init scenario2) =
     Inr \<lparr>student_dict = [(''A'', \<lparr>prefs = [''X''], score = 70\<rparr>), (''B'', \<lparr>prefs = [''X''], score = 90\<rparr>)],
          schools_dict = [(''X'', \<lparr>capacity = 1, accepted = [(''B'', 90)]\<rparr>)],
          unmatched = [''A''],
          pref_index = [(''A'', 1), (''B'', 1)]\<rparr> \<and>
   gs_loop (gs_init scenario2) =
     Inr \<lparr>student_dict = [(''A'', \<lparr>prefs = [''X''], score = 70\<rparr>), (''B'', \<lparr>prefs = [''X''], score = 90\<rparr>)],
          schools_dict = [(''X'', \<lparr>capacity = 1, accepted = [(''B'', 90)]\<rparr>)],
          unmatched = [],
          pref_index = [(''A'', 1), (''B'', 1)]\<rparr> \<and>
   gale_shapley_matching scenario2 = Inr [(''X'', [''B''])]"
proof (intro conjI allI impI)
  show "gs_steps 1 (gs_init scenario2) =
     Inr \<lparr>student_dict = [(''A'', \<lparr>prefs = [''X''], score = 70\<rparr>), (''B'', \<lparr>prefs = [''X''], score = 90\<rparr>)],
          schools_dict = [(''X'', \<lparr>capacity = 1, accepted = [(''A'', 70)]\<rparr>)],
          unmatched = [''B''],
          pref_index = [(''A'', 1), (''B'', 0)]\<rparr>"
    by code_simp
  show "gs_steps 2 (gs_init scenario2) =
     Inr \<lparr>student_dict = [(''A'', \<lparr>prefs = [''X''], score = 70\<rparr>), (''B'', \<lparr>prefs = [''X''], score = 90\<rparr>)],
          schools_dict = [(''X'', \<lparr>capacity = 1, accepted = [(''B'', 90)]\<rparr>)],
          unmatched = [''A''],
          pref_index = [(''A'', 1), (''B'', 1)]\<rparr>"
    by code_simp
  show "gs_loop (gs_init scenario2) =
     Inr \<lparr>student_dict = [(''A'', \<lparr>prefs = [''X''], score = 70\<rparr>), (''B'', \<lparr>prefs = [''X''], score = 90\<rparr>)],
          schools_dict = [(''X'', \<lparr>capacity = 1, accepted = [(''B'', 90)]\<rparr>)],
          unmatched = [],
          pref_index = [(''A'', 1), (''B'', 1)]\<rparr>"
    by code_simp
  show "gale_shapley_matching scenario2 = Inr [(''X'', [''B''])]"
    by code_simp
next
  fix app n st a rest sd i d
  assume asm: "well_typed app \<and> gs_steps n (gs_init app) = Inr st \<and> unmatched st = a # rest \<and>
      map_of (student_dict st) a = Some sd \<and> map_of (pref_index st) a = Some i \<and>
      i < length (prefs sd) \<and> map_of (schools_dict st) (prefs sd ! i) = Some d \<and>
      \<not> int (length (accepted d)) < capacity d"
  then have wt: "well_typed app" and st: "gs_steps n (gs_init app) = Inr st"
    and u: "unmatched st = a # rest" and sd: "map_of (student_dict st) a = Some sd"
    and i: "map_of (pref_index st) a = Some i" and lt: "i < length (prefs sd)"
    and d: "map_of (schools_dict st) (prefs sd ! i) = Some d"
    and full: "\<not> int (length (accepted d)) < capacity d"
    by simp_all
  from gs_steps_inv [OF gs_init_inv [OF wt] st] have inv: "gs_inv app st" .
  then have cap: "inv_capacity st" and acc: "inv_accepted st"
    by (simp_all add: gs_inv_def)
  from cap d have "0 < capacity d"
    by (simp add: inv_capacity_def)
  with full have "accepted d \<noteq> []" by auto
  then have "sorted_by_score (accepted d) \<noteq> []"
    by (metis length_0_conv length_sort sorted_by_score_def)
  then obtain low others where srt: "sorted_by_score (accepted d) = low # others"
    by (cases "sorted_by_score (accepted d)") auto
  have low_in: "low \<in> set (accepted d)"
    using sorted_by_score_lowest(1) [OF srt] .
  have dist: "distinct (map fst (accepted d))"
    using acc d unfolding inv_accepted_def by blast
  have "(fst low, snd low) \<in> set (accepted d)"
    using low_in by simp
  with acc d have "fst low \<notin> set (unmatched st)"
    unfolding inv_accepted_def by blast
  with u have neq: "fst low \<noteq> a" by auto
  have a_notin: "a \<notin> fst ` set (accepted d)"
    using acc d u unfolding inv_accepted_def by fastforce
  have gone: "fst low \<notin> fst ` set (remove1 low (accepted d) @ [(a, score sd)])"
    using map_fst_remove1 [OF dist low_in] neq by auto
  have cursor: "map_of (AList.update a (i + 1) (pref_index st)) (fst low)
                 = map_of (pref_index st) (fst low)"
    using neq by (simp add: update_conv')
  have step: "(if snd low < score sd
          then gs_iter st =
                 Inr (st\<lparr>schools_dict := AList.update (prefs sd ! i)
                            (d\<lparr>accepted := remove1 low (accepted d) @ [(a, score sd)]\<rparr>)
                            (schools_dict st),
                         unmatched := rest @ [fst low],
                         pref_index := AList.update a (i + 1) (pref_index st)\<rparr>)
          else gs_iter st =
                 Inr (st\<lparr>unmatched := rest @ [a],
                         pref_index := AList.update a (i + 1) (pref_index st)\<rparr>))"
    using u sd i lt d full srt by (simp add: gs_iter_def dict_get_def Let_def)
  show "\<exists>low. low \<in> set (accepted d) \<and> snd low = Min (snd ` set (accepted d)) \<and>
         low = hd (filter (\<lambda>x. snd x = Min (snd ` set (accepted d))) (accepted d)) \<and>
         (if snd low < score sd
          then gs_iter st =
                 Inr (st\<lparr>schools_dict := AList.update (prefs sd ! i)
                            (d\<lparr>accepted := remove1 low (accepted d) @ [(a, score sd)]\<rparr>)
                            (schools_dict st),
                         unmatched := rest @ [fst low],
                         pref_index := AList.update a (i + 1) (pref_index st)\<rparr>) \<and>
               fst low \<notin> fst ` set (remove1 low (accepted d) @ [(a, score sd)]) \<and>
               map_of (AList.update a (i + 1) (pref_index st)) (fst low)
                 = map_of (pref_index st) (fst low)
          else gs_iter st =
                 Inr (st\<lparr>unmatched := rest @ [a],
                         pref_index := AList.update a (i + 1) (pref_index st)\<rparr>))"
    using low_in sorted_by_score_first [OF srt] step gone cursor
    by (intro exI [of _ low]) (simp split: if_splits)
qed

theorem eviction_rule_witness:
  "well_typed scenario2 \<and>
   (\<exists>st sd d. gs_steps 1 (gs_init scenario2) = Inr st \<and> unmatched st = [''B''] \<and>
      map_of (student_dict st) ''B'' = Some sd \<and> map_of (pref_index st) ''B'' = Some 0 \<and>
      0 < length (prefs sd) \<and> map_of (schools_dict st) (prefs sd ! 0) = Some d \<and>
      \<not> int (length (accepted d)) < capacity d \<and>
      hd (filter (\<lambda>x. snd x = Min (snd ` set (accepted d))) (accepted d)) = (''A'', 70) \<and>
      score sd = 90 \<and>
      gs_iter st =
        Inr (st\<lparr>schools_dict := [(''X'', \<lparr>capacity = 1, accepted = [(''B'', 90)]\<rparr>)],
                unmatched := [''A''],
                pref_index := [(''A'', 1), (''B'', 1)]\<rparr>))"
proof -
  let ?st = "\<lparr>student_dict = [(''A'', \<lparr>prefs = [''X''], score = 70\<rparr>), (''B'', \<lparr>prefs = [''X''], score = 90\<rparr>)],
          schools_dict = [(''X'', \<lparr>capacity = 1, accepted = [(''A'', 70)]\<rparr>)],
          unmatched = [''B''],
          pref_index = [(''A'', 1), (''B'', 0)]\<rparr>"
  let ?sd = "\<lparr>prefs = [''X''], score = 90\<rparr>"
  let ?d = "\<lparr>capacity = 1, accepted = [(''A'', 70)]\<rparr>"
  have st: "gs_steps 1 (gs_init scenario2) = Inr ?st"
    using eviction_rule by simp
  have u: "unmatched ?st = ''B'' # []" by simp
  have sd: "map_of (student_dict ?st) ''B'' = Some ?sd" by simp
  have i: "map_of (pref_index ?st) ''B'' = Some 0" by simp
  have lt: "0 < length (prefs ?sd)" by simp
  have d: "map_of (schools_dict ?st) (prefs ?sd ! 0) = Some ?d" by simp
  have full: "\<not> int (length (accepted ?d)) < capacity ?d" by simp
  have first: "hd (filter (\<lambda>x. snd x = Min (snd ` set (accepted ?d))) (accepted ?d)) = (''A'', 70)"
    by simp
  from eviction_rule [THEN conjunct1, rule_format, of scenario2 1 ?st "''B''" "[]" ?sd 0 ?d]
    well_typed_scenario2 st u sd i lt d full
  obtain low where low: "low = hd (filter (\<lambda>x. snd x = Min (snd ` set (accepted ?d))) (accepted ?d))"
    and it: "(if snd low < score ?sd
          then gs_iter ?st =
                 Inr (?st\<lparr>schools_dict := AList.update (prefs ?sd ! 0)
                            (?d\<lparr>accepted := remove1 low (accepted ?d) @ [(''B'', score ?sd)]\<rparr>)
                            (schools_dict ?st),
                         unmatched := [] @ [fst low],
                         pref_index := AList.update ''B'' (0 + 1) (pref_index ?st)\<rparr>) \<and>
               fst low \<notin> fst ` set (remove1 low (accepted ?d) @ [(''B'', score ?sd)]) \<and>
               map_of (AList.update ''B'' (0 + 1) (pref_index ?st)) (fst low)
                 = map_of (pref_index ?st) (fst low)
          else gs_iter ?st =
                 Inr (?st\<lparr>unmatched := [] @ [''B''],
                         pref_index := AList.update ''B'' (0 + 1) (pref_index ?st)\<rparr>))"
    by blast
  from low first have "low = (''A'', 70)" by simp
  with it have "gs_iter ?st =
        Inr (?st\<lparr>schools_dict := [(''X'', \<lparr>capacity = 1, accepted = [(''B'', 90)]\<rparr>)],
                unmatched := [''A''],
                pref_index := [(''A'', 1), (''B'', 1)]\<rparr>)"
    by simp
  with well_typed_scenario2 st u sd i lt d full first show ?thesis
    by (intro conjI exI [of _ ?st] exI [of _ ?sd] exI [of _ ?d]) simp_all
qed

text \<open>
  Claim C7 (the adjusted copy), as amended. Whenever the loop over the applicants
  raises nothing, the matching runs on a list of new applicants with the names and
  the preference lists of the originals, in the same order; the score of each is
  \<^verbatim>\<open>int(score * factor)\<close>: the float product cut off towards zero, which is its floor
  only when the product is not negative. Whenever the analysis returns, the
  application object holds the original list again. The floor fails for the score
  \<open>- 3\<close> and the factor \<open>0.5\<close>: the float product is exactly \<open>- 1.5\<close>, its floor is
  \<open>- 2\<close>, and the copy's score is \<open>- 1\<close>.
\<close>

theorem adjusted_copy:
  "(\<forall>self factor adjusted.
      adjusted_students (students self) factor = Inr adjusted \<longrightarrow>
        map Student.name adjusted = map Student.name (students self) \<and>
        map preferences adjusted = map preferences (students self) \<and>
        (\<forall>k < length (students self).
           \<exists>y x. py_float (Student.score (students self ! k)) = Inr y \<and>
                 float_mul y factor = Some x \<and>
                 Student.score (adjusted ! k) = (if 0 \<le> x then \<lfloor>x\<rfloor> else \<lceil>x\<rceil>)) \<and>
        fst (run_adjusted_matching self factor)
          = gale_shapley_matching (self\<lparr>students := adjusted\<rparr>)) \<and>
   (\<forall>self factor m.
      fst (run_adjusted_matching self factor) = Inr m \<longrightarrow>
        snd (run_adjusted_matching self factor) = self)"
proof (intro conjI allI impI)
  fix self :: CollegeAdmissionsApp and factor adjusted
  assume adj: "adjusted_students (students self) factor = Inr adjusted"
  note props = adjusted_students_props [OF adj]
  show "map Student.name adjusted = map Student.name (students self)"
    using props by simp
  show "map preferences adjusted = map preferences (students self)"
    using props by simp
  show "fst (run_adjusted_matching self factor) = gale_shapley_matching (self\<lparr>students := adjusted\<rparr>)"
    using adj by (simp add: run_adjusted_matching_def Let_def split: sum.splits)
  fix k assume "k < length (students self)"
  with props have "adjusted_score (Student.score (students self ! k)) factor
      = Inr (Student.score (adjusted ! k))"
    by simp
  then show "\<exists>y x. py_float (Student.score (students self ! k)) = Inr y \<and>
                 float_mul y factor = Some x \<and>
                 Student.score (adjusted ! k) = (if 0 \<le> x then \<lfloor>x\<rfloor> else \<lceil>x\<rceil>)"
    by (rule adjusted_score_trunc)
next
  fix self :: CollegeAdmissionsApp and factor m
  assume "fst (run_adjusted_matching self factor) = Inr m"
  then show "snd (run_adjusted_matching self factor) = self"
    by (auto simp: run_adjusted_matching_def Let_def split: sum.splits)
qed

theorem adjusted_copy_counterexample:
  "\<not> (\<exists>adjusted. adjusted_students (students scenario_negative) (1 / 2) = Inr adjusted \<and>
         Student.score (hd adjusted)
           = \<lfloor>real_of_int (Student.score (hd (students scenario_negative))) * (1 / 2)\<rfloor>)"
proof -
  have "adjusted_students (students scenario_negative) (1 / 2)
        = Inr [\<lparr>Student.name = ''A'', preferences = [''X''], score = - 1\<rparr>]"
    by (simp add: scenario_negative_def adjusted_score_negative)
  moreover have "\<lfloor>real_of_int (Student.score (hd (students scenario_negative))) * (1 / 2)\<rfloor> = - 2"
    by (simp add: scenario_negative_def)
  ultimately show ?thesis
    by simp
qed

theorem adjusted_copy_witness:
  "adjusted_students (students scenario_negative) (1 / 2)
     = Inr [\<lparr>Student.name = ''A'', preferences = [''X''], score = - 1\<rparr>] \<and>
   map Student.name [\<lparr>Student.name = ''A'', preferences = [''X''], score = - 1\<rparr>]
     = map Student.name (students scenario_negative) \<and>
   fst (run_adjusted_matching scenario_negative (1 / 2)) = Inr [(''X'', [''A''])] \<and>
   snd (run_adjusted_matching scenario_negative (1 / 2)) = scenario_negative"
proof -
  let ?adj = "[\<lparr>Student.name = ''A'', preferences = [''X''], score = - 1\<rparr>]"
  have adj: "adjusted_students (students scenario_negative) (1 / 2) = Inr ?adj"
    by (simp add: scenario_negative_def adjusted_score_negative)
  have run: "gale_shapley_matching (scenario_negative\<lparr>students := ?adj\<rparr>) = Inr [(''X'', [''A''])]"
    unfolding scenario_negative_def by code_simp
  from adjusted_copy [THEN conjunct1, rule_format, OF adj]
  have names: "map Student.name ?adj = map Student.name (students scenario_negative)"
    and fst: "fst (run_adjusted_matching scenario_negative (1 / 2))
               = gale_shapley_matching (scenario_negative\<lparr>students := ?adj\<rparr>)"
    by blast+
  from fst run have r: "fst (run_adjusted_matching scenario_negative (1 / 2)) = Inr [(''X'', [''A''])]"
    by simp
  from adjusted_copy [THEN conjunct2, rule_format, OF r]
  have "snd (run_adjusted_matching scenario_negative (1 / 2)) = scenario_negative" .
  with adj names r show ?thesis
    by blast
qed

text \<open>
  Claim C8 (factor 1.0) fails on the code for scores that binary64 cannot hold. B has
  the score \<open>2 ^ 53\<close> and A the score \<open>2 ^ 53 + 1\<close>, both apply to X with one place.
  On the input itself A evicts B. With the factor \<open>1.0\<close> the score of A becomes
  \<open>2 ^ 53\<close> as well, A no longer beats B, and the allocation changes: two changes are
  counted. For scores below \<open>2 ^ 53\<close> in absolute value the analysis does return the
  baseline (lemma \<open>factor_one_exact_scores\<close> above).
\<close>

theorem factor_one_changes:
  "gale_shapley_matching scenario_big = Inr [(''X'', [''A''])] \<and>
   run_adjusted_matching scenario_big 1 = (Inr [(''X'', [''B''])], scenario_big) \<and>
   count_matching_changes [(''X'', [''A''])] [(''X'', [''B''])] = 2"
proof (intro conjI)
  show "gale_shapley_matching scenario_big = Inr [(''X'', [''A''])]"
    by code_simp
  let ?adj = "[\<lparr>Student.name = ''B'', preferences = [''X''], score = 9007199254740992\<rparr>,
               \<lparr>Student.name = ''A'', preferences = [''X''], score = 9007199254740992\<rparr>]"
  have adj: "adjusted_students (students scenario_big) 1 = Inr ?adj"
    by (simp add: scenario_big_def adjusted_score_big)
  have run: "gale_shapley_matching (scenario_big\<lparr>students := ?adj\<rparr>) = Inr [(''X'', [''B''])]"
    unfolding scenario_big_def by code_simp
  show "run_adjusted_matching scenario_big 1 = (Inr [(''X'', [''B''])], scenario_big)"
    by (simp add: run_adjusted_matching_def adj run Let_def)
  show "count_matching_changes [(''X'', [''A''])] [(''X'', [''B''])] = 2"
    by (simp add: count_matching_changes_def)
qed

text \<open>
  Claim C9 (no errors). For a well-typed input the function returns an allocation and
  raises nothing. In every state that the loop reaches with a non-empty queue the
  iteration succeeds and the lookups of the popped applicant succeed; if its
  preference list is exhausted (or empty) it is only taken off the queue, and in no
  later state of the run is it in the queue or in an accepted list; if its current
  preference names no known school, its cursor advances and it goes to the tail of
  the queue. With an empty queue the loop returns at once.
\<close>

theorem no_errors:
  assumes "well_typed app"
  shows "(\<exists>alloc. gale_shapley_matching app = Inr alloc) \<and>
    (\<forall>n st a rest. gs_steps n (gs_init app) = Inr st \<and> unmatched st = a # rest \<longrightarrow>
       (\<exists>sd i. map_of (student_dict st) a = Some sd \<and> map_of (pref_index st) a = Some i \<and>
          (length (prefs sd) \<le> i \<longrightarrow>
             gs_iter st = Inr (st\<lparr>unmatched := rest\<rparr>) \<and>
             (\<forall>m st2. gs_steps m (st\<lparr>unmatched := rest\<rparr>) = Inr st2 \<longrightarrow> absent a st2)) \<and>
          (i < length (prefs sd) \<and> map_of (schools_dict st) (prefs sd ! i) = None \<longrightarrow>
             gs_iter st = Inr (st\<lparr>unmatched := rest @ [a],
                                  pref_index := AList.update a (i + 1) (pref_index st)\<rparr>))) \<and>
       (\<exists>st'. gs_iter st = Inr st')) \<and>
    (\<forall>st. unmatched st = [] \<longrightarrow> gs_loop st = Inr st)"
proof (intro conjI allI impI)
  from gs_loop_inv [OF gs_init_inv [OF assms]]
  show "\<exists>alloc. gale_shapley_matching app = Inr alloc"
    by (auto simp: gale_shapley_matching_def)
next
  fix st :: gs_state
  assume "unmatched st = []"
  then show "gs_loop st = Inr st"
    by (simp add: gs_loop.simps)
next
  fix n st a rest
  assume "gs_steps n (gs_init app) = Inr st \<and> unmatched st = a # rest"
  then have st: "gs_steps n (gs_init app) = Inr st" and u: "unmatched st = a # rest"
    by simp_all
  from gs_steps_inv [OF gs_init_inv [OF assms] st] have inv: "gs_inv app st" .
  then have parts: "inv_static app st" "inv_queue st" "inv_capacity st" "inv_accepted st"
    by (simp_all add: gs_inv_def)
  from u have ne: "unmatched st \<noteq> []" by simp
  from gs_iter_progress [OF parts(1-3) ne] obtain st' where st': "gs_iter st = Inr st'"
    by blast
  then show "\<exists>st'. gs_iter st = Inr st'" by blast
  from st' u obtain sd i where sd: "map_of (student_dict st) a = Some sd"
    and i: "map_of (pref_index st) a = Some i"
    by (cases rule: gs_iter_cases) auto
  have discard: "gs_iter st = Inr (st\<lparr>unmatched := rest\<rparr>) \<and>
             (\<forall>m st2. gs_steps m (st\<lparr>unmatched := rest\<rparr>) = Inr st2 \<longrightarrow> absent a st2)"
    if "length (prefs sd) \<le> i"
  proof -
    have it: "gs_iter st = Inr (st\<lparr>unmatched := rest\<rparr>)"
      using u sd i that by (simp add: gs_iter_def dict_get_def)
    have "a \<notin> set rest"
      using parts(2) u by (simp add: inv_queue_def)
    moreover have "a \<notin> fst ` set (accepted d)" if "map_of (schools_dict st) s = Some d" for s d
      using parts(4) that u unfolding inv_accepted_def by fastforce
    ultimately have "absent a (st\<lparr>unmatched := rest\<rparr>)"
      by (simp add: absent_def)
    then have "\<forall>m st2. gs_steps m (st\<lparr>unmatched := rest\<rparr>) = Inr st2 \<longrightarrow> absent a st2"
      using gs_steps_absent by blast
    with it show ?thesis by simp
  qed
  have unknown: "gs_iter st = Inr (st\<lparr>unmatched := rest @ [a],
                                  pref_index := AList.update a (i + 1) (pref_index st)\<rparr>)"
    if "i < length (prefs sd) \<and> map_of (schools_dict st) (prefs sd ! i) = None"
    using u sd i that by (simp add: gs_iter_def dict_get_def Let_def)
  from sd i discard unknown
  show "\<exists>sd i. map_of (student_dict st) a = Some sd \<and> map_of (pref_index st) a = Some i \<and>
          (length (prefs sd) \<le> i \<longrightarrow>
             gs_iter st = Inr (st\<lparr>unmatched := rest\<rparr>) \<and>
             (\<forall>m st2. gs_steps m (st\<lparr>unmatched := rest\<rparr>) = Inr st2 \<longrightarrow> absent a st2)) \<and>
          (i < length (prefs sd) \<and> map_of (schools_dict st) (prefs sd ! i) = None \<longrightarrow>
             gs_iter st = Inr (st\<lparr>unmatched := rest @ [a],
                                  pref_index := AList.update a (i + 1) (pref_index st)\<rparr>))"
    by blast
qed

theorem no_errors_witness:
  "well_typed scenario3 \<and>
   gale_shapley_matching scenario3 = Inr [(''Y'', [''C''])] \<and>
   (\<exists>st. gs_steps 0 (gs_init scenario3) = Inr st \<and> unmatched st = [''C''] \<and>
      map_of (student_dict st) ''C'' = Some \<lparr>prefs = [''Ghost'', ''Y''], score = 50\<rparr> \<and>
      map_of (pref_index st) ''C'' = Some 0 \<and>
      map_of (schools_dict st) ''Ghost'' = None \<and>
      gs_iter st = Inr (st\<lparr>unmatched := [''C''], pref_index := [(''C'', 1)]\<rparr>)) \<and>
   well_typed scenario2 \<and>
   (\<exists>st. gs_steps 2 (gs_init scenario2) = Inr st \<and> unmatched st = [''A''] \<and>
      map_of (student_dict st) ''A'' = Some \<lparr>prefs = [''X''], score = 70\<rparr> \<and>
      map_of (pref_index st) ''A'' = Some 1 \<and>
      gs_iter st = Inr (st\<lparr>unmatched := []\<rparr>) \<and>
      absent ''A'' (st\<lparr>unmatched := []\<rparr>))"
proof -
  let ?s0 = "\<lparr>student_dict = [(''C'', \<lparr>prefs = [''Ghost'', ''Y''], score = 50\<rparr>)],
          schools_dict = [(''Y'', \<lparr>capacity = 1, accepted = []\<rparr>)],
          unmatched = [''C''],
          pref_index = [(''C'', 0)]\<rparr>"
  let ?t2 = "\<lparr>student_dict = [(''A'', \<lparr>prefs = [''X''], score = 70\<rparr>), (''B'', \<lparr>prefs = [''X''], score = 90\<rparr>)],
          schools_dict = [(''X'', \<lparr>capacity = 1, accepted = [(''B'', 90)]\<rparr>)],
          unmatched = [''A''],
          pref_index = [(''A'', 1), (''B'', 1)]\<rparr>"
  have run: "gale_shapley_matching scenario3 = Inr [(''Y'', [''C''])]"
    by code_simp
  have s0: "gs_steps 0 (gs_init scenario3) = Inr ?s0"
    by code_simp
  have t2: "gs_steps 2 (gs_init scenario2) = Inr ?t2"
    by code_simp
  from no_errors [OF well_typed_scenario3, THEN conjunct2, THEN conjunct1, rule_format,
      of 0 ?s0 "''C''" "[]"] s0
  have "gs_iter ?s0 = Inr (?s0\<lparr>unmatched := [] @ [''C''],
      pref_index := AList.update ''C'' (0 + 1) (pref_index ?s0)\<rparr>)"
    by simp
  then have a: "gs_iter ?s0 = Inr (?s0\<lparr>unmatched := [''C''], pref_index := [(''C'', 1)]\<rparr>)"
    by simp
  from no_errors [OF well_typed_scenario2, THEN conjunct2, THEN conjunct1, rule_format,
      of 2 ?t2 "''A''" "[]"] t2
  have "gs_iter ?t2 = Inr (?t2\<lparr>unmatched := []\<rparr>) \<and>
     (\<forall>m st2. gs_steps m (?t2\<lparr>unmatched := []\<rparr>) = Inr st2 \<longrightarrow> absent ''A'' st2)"
    by simp
  then have b: "gs_iter ?t2 = Inr (?t2\<lparr>unmatched := []\<rparr>)"
    and "gs_steps 0 (?t2\<lparr>unmatched := []\<rparr>) = Inr (?t2\<lparr>unmatched := []\<rparr>) \<longrightarrow>
         absent ''A'' (?t2\<lparr>unmatched := []\<rparr>)"
    by blast+
  then have c: "absent ''A'' (?t2\<lparr>unmatched := []\<rparr>)"
    by simp
  show ?thesis
    using well_typed_scenario3 well_typed_scenario2 run s0 t2 a b c
    by (intro conjI exI [of _ ?s0] exI [of _ ?t2]) simp_all
qed

text \<open>
  Claim C10 (keys of the allocation). For a well-typed input the function returns a
  dictionary whose keys are exactly the names of the input schools, each once and in
  the order of the input; a school that no applicant has applied to when the loop
  ends, whether listed in a preference list or not, is mapped to the empty list.
\<close>

theorem allocation_keys:
  assumes "well_typed app"
  shows "\<exists>fin alloc. gs_loop (gs_init app) = Inr fin \<and>
           gale_shapley_matching app = Inr alloc \<and>
           map fst alloc = map fst (schools app) \<and> distinct (map fst alloc) \<and>
           (\<forall>s \<in> fst ` set (schools app).
              (\<forall>stu \<in> set (students app). \<not> applied fin (Student.name stu) s) \<longrightarrow>
              map_of alloc s = Some [])"
proof -
  from gs_loop_inv [OF gs_init_inv [OF assms]] obtain fin where
    fin: "gs_loop (gs_init app) = Inr fin" and inv: "gs_inv app fin"
    by blast
  let ?alloc = "format_results (schools_dict fin)"
  have keys: "map fst (schools_dict fin) = map fst (schools app)"
    using inv by (simp add: gs_inv_def inv_static_def)
  have dist: "distinct (map fst (schools_dict fin))"
    using assms keys by (simp add: well_typed_def)
  have "map_of ?alloc s = Some []"
    if s: "s \<in> fst ` set (schools app)"
      and none: "\<forall>stu \<in> set (students app). \<not> applied fin (Student.name stu) s" for s
  proof -
    from s keys have "s \<in> fst ` set (schools_dict fin)"
      by (metis image_set)
    then obtain d where d: "map_of (schools_dict fin) s = Some d"
      by (metis domD dom_map_of_conv_image_fst)
    have "accepted d = []"
    proof (rule ccontr)
      assume "accepted d \<noteq> []"
      then obtain a sc where "(a, sc) \<in> set (accepted d)"
        by (cases "accepted d") auto
      with inv d have ap: "applied fin a s"
        unfolding gs_inv_def inv_accepted_def by blast
      moreover from inv have "inv_static app fin"
        by (simp add: gs_inv_def)
      ultimately obtain stu where "stu \<in> set (students app)" "Student.name stu = a"
        using applied_student by blast
      with none ap show False
        by blast
    qed
    with map_of_format_results [OF dist d] show ?thesis
      by (simp add: sorted_by_score_reverse_def)
  qed
  moreover have "gale_shapley_matching app = Inr ?alloc"
    using fin by (simp add: gale_shapley_matching_def)
  moreover have "map fst ?alloc = map fst (schools app)"
    using map_fst_format_results [OF dist] keys by simp
  moreover have "distinct (map fst ?alloc)"
    using map_fst_format_results [OF dist] dist by simp
  ultimately show ?thesis
    using fin by blast
qed

theorem allocation_keys_witness:
  "well_typed scenario_listed \<and>
   (\<exists>fin alloc. gs_loop (gs_init scenario_listed) = Inr fin \<and>
      gale_shapley_matching scenario_listed = Inr alloc \<and>
      alloc = [(''X'', [''A'']), (''Z'', [])] \<and>
      map fst alloc = map fst (schools scenario_listed) \<and> distinct (map fst alloc) \<and>
      ''Z'' \<in> fst ` set (schools scenario_listed) \<and>
      ''Z'' \<in> set (preferences (hd (students scenario_listed))) \<and>
      \<not> applied fin ''A'' ''Z'' \<and>
      map_of alloc ''Z'' = Some [])"
proof -
  let ?fin = "\<lparr>student_dict = [(''A'', \<lparr>prefs = [''X'', ''Z''], score = 70\<rparr>)],
          schools_dict = [(''X'', \<lparr>capacity = 1, accepted = [(''A'', 70)]\<rparr>),
                          (''Z'', \<lparr>capacity = 1, accepted = []\<rparr>)],
          unmatched = [],
          pref_index = [(''A'', 1)]\<rparr>"
  have loop: "gs_loop (gs_init scenario_listed) = Inr ?fin"
    by code_simp
  have run: "gale_shapley_matching scenario_listed = Inr [(''X'', [''A'']), (''Z'', [])]"
    by code_simp
  have z: "''Z'' \<in> fst ` set (schools scenario_listed)"
    by (simp add: scenario_listed_def)
  have listed: "''Z'' \<in> set (preferences (hd (students scenario_listed)))"
    by (simp add: scenario_listed_def)
  have nap: "\<not> applied ?fin ''A'' ''Z''"
    by (simp add: applied_def)
  then have none: "\<forall>stu \<in> set (students scenario_listed). \<not> applied ?fin (Student.name stu) ''Z''"
    by (simp add: scenario_listed_def)
  from allocation_keys [OF well_typed_scenario_listed] loop
  obtain alloc where alloc: "gale_shapley_matching scenario_listed = Inr alloc"
    "map fst alloc = map fst (schools scenario_listed)" "distinct (map fst alloc)"
    "\<forall>s \<in> fst ` set (schools scenario_listed).
        (\<forall>stu \<in> set (students scenario_listed). \<not> applied ?fin (Student.name stu) s) \<longrightarrow>
        map_of alloc s = Some []"
    by auto
  from alloc(4) z none have "map_of alloc ''Z'' = Some []"
    by blast
  moreover from alloc(1) run have "alloc = [(''X'', [''A'']), (''Z'', [])]"
    by simp
  ultimately show ?thesis
    using well_typed_scenario_listed loop alloc z listed nap
    by (intro conjI exI [of _ ?fin] exI [of _ alloc]) simp_all
qed

end
